theory Spec2Isabelle
  imports Complex_Main "HOL-Library.Monad_Syntax"
begin

section \<open>DoubleRange: a shallow embedding of \<^verbatim>\<open>src/double-range.ts\<close>\<close>

text \<open>
  The widget is a class whose private fields are mutated by its methods; the embedding
  is a record of those fields and one HOL function per method that takes the record and
  returns the record after the call.

  The file holds two models of the value setters.

  The first, the finite model, takes a JavaScript \<^verbatim>\<open>number\<close> to be an exact
  rational and a guard to be a predicate of two numbers. It covers finite values
  computed without rounding error and guards that do nothing but answer, and it is the
  model of the whole widget: setters, scheduler, pointer and key handlers, binding and
  label layout. Where the source divides, it says what happens for a zero divisor
  explicitly.

  The second, in the section on the setters over the numbers of JavaScript, has
  \<^verbatim>\<open>NaN\<close> and the two infinities with their comparisons, rounds what subtraction
  and addition compute, and lets a guard act on the widget before it answers. It covers
  the five setters, which is where those three things decide what the code does.
\<close>

subsection \<open>Data\<close>

type_synonym number = rat

datatype ThumbType = From | To

record DOMRect =
  rect_left :: number
  rect_width :: number

text \<open>
  The ARIA attributes the source reads and writes on each thumb element; \<open>None\<close> is
  an attribute that is absent or empty.
\<close>

record 'n aria =
  aria_valuemin :: "'n option"
  aria_valuemax :: "'n option"
  aria_valuenow :: "'n option"

type_synonym thumb = "number aria"

text \<open>
  The instance fields of class \<^verbatim>\<open>DoubleRange\<close>, followed by the part of the
  environment its methods act on: the timeouts of this widget that are armed
  (\<open>timers\<close>, by id), the source of fresh timeout ids (\<open>timerCount\<close>) and the
  invocations of the user callback so far (\<open>delivered\<close>, oldest first).
  The formatter and the callback are set unconditionally by the constructor, so the
  tests \<^verbatim>\<open>if (this.#formatter)\<close> and \<^verbatim>\<open>if (this.#callback)\<close> always succeed
  and are not represented.

  The record is written once for both models: \<open>'n\<close> is the type of the numbers and
  \<open>'g\<close> is what the two guard fields hold. In the finite model a guard field holds
  the predicate.
\<close>

record ('n, 'g) slider =
  minValue :: 'n
  maxValue :: 'n
  step :: 'n
  fromValue :: 'n
  toValue :: 'n
  beforeFromChange :: "'g option"
  beforeToChange :: "'g option"
  isDragging :: "ThumbType option"
  duringDrag :: bool
  trackRect :: "DOMRect option"
  callbackTimer :: "nat option"
  fromThumb :: "'n aria"
  toThumb :: "'n aria"
  timers :: "nat list"
  timerCount :: nat
  delivered :: "('n \<times> 'n) list"

type_synonym DoubleRange = "(number, number \<Rightarrow> number \<Rightarrow> bool) slider"

text \<open>The exceptions the methods throw.\<close>

datatype error = TypeError | RangeError | Error

text \<open>
  \<^verbatim>\<open>setFrom\<close> and \<^verbatim>\<open>setTo\<close> return \<^verbatim>\<open>this\<close> or \<^verbatim>\<open>false\<close>. The model
  returns the return statement that was taken, in source order; \<open>returns_this\<close> is
  the value JavaScript sees.
\<close>

datatype exit = OutOfRange | OrderViolation | NoChange | Vetoed | Accepted

definition returns_this :: "exit \<Rightarrow> bool" where
  "returns_this e = (e = Accepted)"

subsection \<open>The callback scheduler\<close>

text \<open>
  \<^verbatim>\<open>clearTimeout(id)\<close> disarms the timeout with that id, if it is armed.
  \<^verbatim>\<open>window.setTimeout\<close> arms a timeout under a fresh, non-zero id.
\<close>

definition clearTimeout :: "nat \<Rightarrow> ('n, 'g) slider \<Rightarrow> ('n, 'g) slider" where
  "clearTimeout i s = s\<lparr>timers := removeAll i (timers s)\<rparr>"

definition setTimeout :: "('n, 'g) slider \<Rightarrow> nat \<times> ('n, 'g) slider" where
  "setTimeout s =
     (let i = Suc (timerCount s)
      in (i, s\<lparr>timers := timers s @ [i], timerCount := i\<rparr>))"

text \<open>\<^verbatim>\<open>if (this.#callbackTimer) clearTimeout(this.#callbackTimer)\<close>: null and 0 are falsy.\<close>

definition clearCallbackTimer :: "('n, 'g) slider \<Rightarrow> ('n, 'g) slider" where
  "clearCallbackTimer s =
     (case callbackTimer s of
        None \<Rightarrow> s
      | Some i \<Rightarrow> if i \<noteq> 0 then clearTimeout i s else s)"

definition scheduleCallback :: "('n, 'g) slider \<Rightarrow> ('n, 'g) slider" where
  "scheduleCallback s =
     (let s1 = clearCallbackTimer s
      in if duringDrag s1 then s1
         else (case setTimeout s1 of (i, s2) \<Rightarrow> s2\<lparr>callbackTimer := Some i\<rparr>))"

text \<open>
  The body of the timeout: the callback receives the values current when it runs, and
  the \<^verbatim>\<open>range-change\<close> event dispatched with it carries the same pair.
  A timeout that has been cleared, or has already run, does nothing.
\<close>

definition timerFired :: "nat \<Rightarrow> ('n, 'g) slider \<Rightarrow> ('n, 'g) slider" where
  "timerFired i s =
     (if i \<in> set (timers s)
      then s\<lparr>timers := removeAll i (timers s),
             delivered := delivered s @ [(fromValue s, toValue s)]\<rparr>
      else s)"

subsection \<open>The value model of finite numbers: public setters\<close>

text \<open>
  Every setter ends by calling the layout methods. Those write styles and texts, read
  geometry, and change none of the fields below; the label layout is modelled on its
  own further down.
\<close>

definition setMin :: "DoubleRange \<Rightarrow> number \<Rightarrow> bool \<Rightarrow> (error + unit) \<times> DoubleRange" where
  "setMin s v fireCallback =
     (if v \<ge> maxValue s then (Inl RangeError, s)
      else if v > fromValue s then (Inl RangeError, s)
      else
        let s1 = s\<lparr>minValue := v,
                   fromThumb := (fromThumb s)\<lparr>aria_valuemin := Some v\<rparr>,
                   toThumb := (toThumb s)\<lparr>aria_valuemin := Some v\<rparr>\<rparr>
        in (Inr (), if fireCallback then scheduleCallback s1 else s1))"

definition setMax :: "DoubleRange \<Rightarrow> number \<Rightarrow> bool \<Rightarrow> (error + unit) \<times> DoubleRange" where
  "setMax s v fireCallback =
     (if v \<le> minValue s then (Inl RangeError, s)
      else if v < toValue s then (Inl RangeError, s)
      else
        let s1 = s\<lparr>maxValue := v,
                   fromThumb := (fromThumb s)\<lparr>aria_valuemax := Some v\<rparr>,
                   toThumb := (toThumb s)\<lparr>aria_valuemax := Some v\<rparr>\<rparr>
        in (Inr (), if fireCallback then scheduleCallback s1 else s1))"

text \<open>
  The guard predicates: \<^verbatim>\<open>g !== null && !g(from, to)\<close>. In the finite model a
  guard is a predicate of the two numbers it is given and does nothing else.
\<close>

definition vetoes :: "(number \<Rightarrow> number \<Rightarrow> bool) option \<Rightarrow> number \<Rightarrow> number \<Rightarrow> bool" where
  "vetoes g a b = (case g of None \<Rightarrow> False | Some p \<Rightarrow> \<not> p a b)"

text \<open>
  \<^verbatim>\<open>setFrom\<close> calls itself when the value is not below \<open>to\<close>, with the default
  \<^verbatim>\<open>fireCallback = true\<close>, and discards what the inner call returns. Nothing in the
  source bounds that recursion, so the function is partial: \<open>None\<close> is a call that
  does not return.
\<close>

partial_function (option) setFrom ::
  "DoubleRange \<Rightarrow> number \<Rightarrow> bool \<Rightarrow> (exit \<times> DoubleRange) option" where
  "setFrom s v fireCallback =
     (if v < minValue s \<or> v > maxValue s then Some (OutOfRange, s)
      else if v \<ge> toValue s then
        do { r \<leftarrow> setFrom s (toValue s - step s) True; Some (OrderViolation, snd r) }
      else if v = toValue s then Some (NoChange, s)
      else if vetoes (beforeFromChange s) v (toValue s) then Some (Vetoed, s)
      else
        let s1 = s\<lparr>fromValue := v, fromThumb := (fromThumb s)\<lparr>aria_valuenow := Some v\<rparr>\<rparr>
        in Some (Accepted, if fireCallback then scheduleCallback s1 else s1))"

partial_function (option) setTo ::
  "DoubleRange \<Rightarrow> number \<Rightarrow> bool \<Rightarrow> (exit \<times> DoubleRange) option" where
  "setTo s v fireCallback =
     (if v < minValue s \<or> v > maxValue s then Some (OutOfRange, s)
      else if v \<le> fromValue s then
        do { r \<leftarrow> setTo s (fromValue s + step s) True; Some (OrderViolation, snd r) }
      else if v = toValue s then Some (NoChange, s)
      else if vetoes (beforeToChange s) (fromValue s) v then Some (Vetoed, s)
      else
        let s1 = s\<lparr>toValue := v, toThumb := (toThumb s)\<lparr>aria_valuenow := Some v\<rparr>\<rparr>
        in Some (Accepted, if fireCallback then scheduleCallback s1 else s1))"

definition getFrom :: "('n, 'g) slider \<Rightarrow> 'n" where
  "getFrom s = fromValue s"

definition getTo :: "('n, 'g) slider \<Rightarrow> 'n" where
  "getTo s = toValue s"

definition getMin :: "('n, 'g) slider \<Rightarrow> 'n" where
  "getMin s = minValue s"

definition getMax :: "('n, 'g) slider \<Rightarrow> 'n" where
  "getMax s = maxValue s"

subsection \<open>Bulk update\<close>

text \<open>
  \<^verbatim>\<open>UpdateOptions\<close>: every key is optional. The argument is typed, so the
  plain-object test of the source, and its \<^verbatim>\<open>TypeError\<close>, have no counterpart.
\<close>

record 'n options =
  opt_min :: "'n option"
  opt_max :: "'n option"
  opt_from :: "'n option"
  opt_to :: "'n option"

type_synonym UpdateOptions = "number options"

record 'n merged_values =
  next_min :: 'n
  next_max :: 'n
  next_from :: 'n
  next_to :: 'n

type_synonym RangeState = "number merged_values"

text \<open>\<^verbatim>\<open>next[key] = o[key] !== undefined ? o[key] : current[key]\<close>\<close>

definition merged :: "('n, 'g) slider \<Rightarrow> 'n options \<Rightarrow> 'n merged_values" where
  "merged s o' =
     \<lparr>next_min = (case opt_min o' of Some x \<Rightarrow> x | None \<Rightarrow> minValue s),
      next_max = (case opt_max o' of Some x \<Rightarrow> x | None \<Rightarrow> maxValue s),
      next_from = (case opt_from o' of Some x \<Rightarrow> x | None \<Rightarrow> fromValue s),
      next_to = (case opt_to o' of Some x \<Rightarrow> x | None \<Rightarrow> toValue s)\<rparr>"

definition update :: "DoubleRange \<Rightarrow> UpdateOptions \<Rightarrow> bool \<Rightarrow> (error + unit) \<times> DoubleRange" where
  "update s o' fireCallback =
     (let n = merged s o' in
      if next_min n \<ge> next_max n then (Inl RangeError, s)
      else if next_from n < next_min n \<or> next_from n > next_max n then (Inl RangeError, s)
      else if next_to n < next_min n \<or> next_to n > next_max n then (Inl RangeError, s)
      else if next_from n \<ge> next_to n then (Inl RangeError, s)
      else
        let s1 = s\<lparr>minValue := next_min n, maxValue := next_max n,
                   fromValue := next_from n, toValue := next_to n,
                   fromThumb := \<lparr>aria_valuemin = Some (next_min n),
                                 aria_valuemax = Some (next_max n),
                                 aria_valuenow = Some (next_from n)\<rparr>,
                   toThumb := \<lparr>aria_valuemin = Some (next_min n),
                               aria_valuemax = Some (next_max n),
                               aria_valuenow = Some (next_to n)\<rparr>\<rparr>
        in (Inr (), if fireCallback then scheduleCallback s1 else s1))"

text \<open>The ordering invariant of the value model.\<close>

definition ordered :: "DoubleRange \<Rightarrow> bool" where
  "ordered s \<longleftrightarrow>
     minValue s < maxValue s \<and> minValue s \<le> fromValue s \<and>
     fromValue s < toValue s \<and> toValue s \<le> maxValue s"

subsection \<open>The interaction controller\<close>

text \<open>
  A quotient of the model is a finite number only when the divisor is not zero; for a
  zero divisor JavaScript yields an infinity or \<^verbatim>\<open>NaN\<close>, which the model has no
  value for.
\<close>

definition js_div :: "number \<Rightarrow> number \<Rightarrow> number option" where
  "js_div a b = (if b = 0 then None else Some (a / b))"

text \<open>
  The snapping shared by the click and the drag handler:
  \<^verbatim>\<open>value = min + percent * (max - min)\<close>,
  \<^verbatim>\<open>snapped = Math.round((value - min) / step) * step + min\<close>.
  \<^verbatim>\<open>Math.round\<close> rounds halves up, as \<^const>\<open>round\<close> does.
\<close>

definition snapValue :: "DoubleRange \<Rightarrow> number \<Rightarrow> number option" where
  "snapValue s percent =
     (let v = minValue s + percent * (maxValue s - minValue s)
      in do { q \<leftarrow> js_div (v - minValue s) (step s);
              Some (of_int (round q) * step s + minValue s) })"

text \<open>
  The handlers return nothing; the model returns the state they leave, or \<open>None\<close>
  when a setter does not return or a quotient is not finite.
\<close>

definition trackClicked :: "DoubleRange \<Rightarrow> number \<Rightarrow> DoubleRange option" where
  "trackClicked s clientX =
     (case trackRect s of
        None \<Rightarrow> Some s
      | Some r \<Rightarrow>
          do { percent \<leftarrow> js_div (clientX - rect_left r) (rect_width r);
               snapped \<leftarrow> snapValue s percent;
               if \<bar>snapped - fromValue s\<bar> < \<bar>snapped - toValue s\<bar>
               then map_option snd (setFrom s snapped True)
               else map_option snd (setTo s snapped True) })"

definition getValue :: "DoubleRange \<Rightarrow> ThumbType \<Rightarrow> number" where
  "getValue s type = (case type of From \<Rightarrow> fromValue s | To \<Rightarrow> toValue s)"

definition setValue :: "DoubleRange \<Rightarrow> ThumbType \<Rightarrow> number \<Rightarrow> DoubleRange option" where
  "setValue s type v =
     (case type of
        From \<Rightarrow> map_option snd (setFrom s v True)
      | To \<Rightarrow> map_option snd (setTo s v True))"

definition onDragStart :: "DoubleRange \<Rightarrow> ThumbType \<Rightarrow> DoubleRange" where
  "onDragStart s type =
     clearCallbackTimer (s\<lparr>isDragging := Some type, duringDrag := True\<rparr>)"

definition onDragMove :: "DoubleRange \<Rightarrow> number \<Rightarrow> DoubleRange option" where
  "onDragMove s clientX =
     (case (isDragging s, trackRect s) of
        (Some type, Some r) \<Rightarrow>
          if clientX = 0 then Some s
          else do { p \<leftarrow> js_div (clientX - rect_left r) (rect_width r);
                    snapped \<leftarrow> snapValue s (max 0 (min 1 p));
                    setValue s type snapped }
      | _ \<Rightarrow> Some s)"

definition onDragEnd :: "DoubleRange \<Rightarrow> DoubleRange" where
  "onDragEnd s =
     (case isDragging s of
        None \<Rightarrow> s
      | Some type \<Rightarrow> scheduleCallback (s\<lparr>isDragging := None, duringDrag := False\<rparr>))"

datatype key = ArrowLeft | ArrowDown | ArrowRight | ArrowUp | OtherKey

definition onKey :: "DoubleRange \<Rightarrow> key \<Rightarrow> ThumbType \<Rightarrow> DoubleRange option" where
  "onKey s k type =
     (if k = ArrowLeft \<or> k = ArrowDown then
        (if getValue s type - step s \<ge> minValue s
         then map_option scheduleCallback (setValue s type (getValue s type - step s))
         else Some s)
      else if k = ArrowRight \<or> k = ArrowUp then
        (if getValue s type + step s \<le> maxValue s
         then map_option scheduleCallback (setValue s type (getValue s type + step s))
         else Some s)
      else Some s)"

text \<open>
  What reaches a bound widget from outside during a drag gesture: the three pointer
  events, and the passing of enough time for every armed timeout to run.
\<close>

datatype event = DragStart ThumbType | DragMove number | DragEnd | TimersElapse

definition timersElapse :: "DoubleRange \<Rightarrow> DoubleRange" where
  "timersElapse s = fold timerFired (timers s) s"

fun handle :: "event \<Rightarrow> DoubleRange \<Rightarrow> DoubleRange option" where
  "handle (DragStart type) s = Some (onDragStart s type)"
| "handle (DragMove clientX) s = onDragMove s clientX"
| "handle DragEnd s = Some (onDragEnd s)"
| "handle TimersElapse s = Some (timersElapse s)"

text \<open>
  The timeouts of a widget that are armed are at most the one whose id it holds.
\<close>

definition timers_held :: "DoubleRange \<Rightarrow> bool" where
  "timers_held s \<longleftrightarrow>
     (case timers s of
        [] \<Rightarrow> True
      | [i] \<Rightarrow> i \<noteq> 0 \<and> callbackTimer s = Some i
      | _ \<Rightarrow> False)"

subsection \<open>Binding\<close>

text \<open>
  The document, as far as the constructor looks at it: the elements a selector matches,
  and for an element what the constructor's \<^verbatim>\<open>querySelector\<close> calls find below it.
  \<open>q_fromLabel\<close> and \<open>q_toLabel\<close> are \<open>None\<close> when there is no such label and
  otherwise say whether the label contains a \<^verbatim>\<open>span\<close>. \<open>q_track\<close> carries the
  bounding rectangle of the track. \<^verbatim>\<open>querySelector\<close> searches the descendants of
  its element, so \<open>q_div\<close> of an element is never that element.
\<close>

type_synonym elem = nat
type_synonym inst = nat

record markup =
  q_div :: "elem option"
  q_fromThumb :: "thumb option"
  q_toThumb :: "thumb option"
  q_fromLabel :: "bool option"
  q_toLabel :: "bool option"
  q_minLabel :: bool
  q_maxLabel :: bool
  q_track :: "DOMRect option"
  q_rangeBar :: bool

record document =
  querySelectorAll :: "string \<Rightarrow> elem list"
  below :: "elem \<Rightarrow> markup"

text \<open>
  \<^verbatim>\<open>DoubleRangeConfig\<close>. The fields \<^verbatim>\<open>callback\<close>, \<^verbatim>\<open>delay\<close>,
  \<^verbatim>\<open>formatter\<close> and \<^verbatim>\<open>label\<close> do not influence the values and are left out;
  the \<^verbatim>\<open>typeof\<close> tests on the configuration hold by typing.
\<close>

record config =
  selector :: string
  cfg_min :: number
  cfg_max :: number
  cfg_from :: number
  cfg_to :: number
  cfg_step :: number
  cfg_beforeFromChange :: "(number \<Rightarrow> number \<Rightarrow> bool) option"
  cfg_beforeToChange :: "(number \<Rightarrow> number \<Rightarrow> bool) option"

text \<open>The static \<^verbatim>\<open>#map\<close>: a \<^verbatim>\<open>WeakMap\<close> from elements to instances.\<close>

type_synonym registry = "elem \<rightharpoonup> inst"

definition getElement :: "document \<Rightarrow> string \<Rightarrow> error + elem" where
  "getElement doc sel =
     (case querySelectorAll doc sel of
        [] \<Rightarrow> Inl Error
      | [e] \<Rightarrow> Inr e
      | _ \<Rightarrow> Inl Error)"

text \<open>\<^verbatim>\<open>parseFloat(el.getAttribute(a) || d)\<close> for an attribute that parses.\<close>

definition attr_or :: "number \<Rightarrow> number option \<Rightarrow> number" where
  "attr_or d a = (case a of None \<Rightarrow> d | Some x \<Rightarrow> x)"

text \<open>\<^verbatim>\<open>a || b\<close> on numbers: zero is falsy.\<close>

definition or_else :: "number \<Rightarrow> number \<Rightarrow> number" where
  "or_else a b = (if a \<noteq> 0 then a else b)"

text \<open>
  The constructor, called on instance \<open>this\<close>. It returns the exception or the bound
  instance, and the registry it leaves. The three \<^verbatim>\<open>TypeError\<close>s at the end are
  those of the first layout, which dereferences the bound labels and the range bar after
  the instance has been registered.
\<close>

definition "constructor" ::
  "document \<Rightarrow> registry \<Rightarrow> inst \<Rightarrow> config \<Rightarrow> (error + DoubleRange) \<times> registry" where
  "constructor doc reg this o' =
     (case getElement doc (selector o') of
        Inl e \<Rightarrow> (Inl e, reg)
      | Inr container \<Rightarrow>
          if reg container \<noteq> None then (Inl Error, reg)
          else
            let m = below doc container in
            if q_fromLabel m = None then (Inl TypeError, reg)
            else if q_toLabel m = None then (Inl TypeError, reg)
            else
              (case (q_div m, q_fromThumb m, q_toThumb m, q_track m) of
                 (Some dr, Some ft, Some tt, Some rect) \<Rightarrow>
                   if q_fromLabel m \<noteq> Some True \<or> q_toLabel m \<noteq> Some True
                   then (Inl Error, reg)
                   else
                     let mn = attr_or 0 (aria_valuemin ft);
                         mx = attr_or 100 (aria_valuemax ft);
                         f = or_else (attr_or 0 (aria_valuenow ft)) (or_else (cfg_from o') mn);
                         t = or_else (attr_or 100 (aria_valuenow tt)) (or_else (cfg_to o') mx)
                     in
                       if f \<ge> t then (Inl Error, reg)
                       else
                         let reg' = reg(dr \<mapsto> this) in
                         if \<not> q_minLabel m \<or> \<not> q_maxLabel m \<or> \<not> q_rangeBar m
                         then (Inl TypeError, reg')
                         else
                           (Inr \<lparr>minValue = mn, maxValue = mx, step = cfg_step o',
                                 fromValue = f, toValue = t,
                                 beforeFromChange = cfg_beforeFromChange o',
                                 beforeToChange = cfg_beforeToChange o',
                                 isDragging = None, duringDrag = False,
                                 trackRect = Some rect, callbackTimer = None,
                                 fromThumb = ft, toThumb = tt,
                                 timers = [], timerCount = 0, delivered = []\<rparr>,
                            reg')
               | _ \<Rightarrow> (Inl Error, reg)))"

text \<open>
  The markup \<^verbatim>\<open>create\<close> writes into the host element. The identity of the new
  \<^verbatim>\<open>.double-range\<close> element and the rectangle of the new track are the browser's.
\<close>

definition generated :: "elem \<Rightarrow> DOMRect \<Rightarrow> config \<Rightarrow> markup" where
  "generated dr rect o' =
     \<lparr>q_div = Some dr,
      q_fromThumb = Some \<lparr>aria_valuemin = Some (cfg_min o'), aria_valuemax = Some (cfg_max o'),
                           aria_valuenow = Some (cfg_from o')\<rparr>,
      q_toThumb = Some \<lparr>aria_valuemin = Some (cfg_min o'), aria_valuemax = Some (cfg_max o'),
                         aria_valuenow = Some (cfg_to o')\<rparr>,
      q_fromLabel = Some True, q_toLabel = Some True,
      q_minLabel = True, q_maxLabel = True,
      q_track = Some rect, q_rangeBar = True\<rparr>"

definition create ::
  "document \<Rightarrow> registry \<Rightarrow> inst \<Rightarrow> elem \<Rightarrow> DOMRect \<Rightarrow> config
     \<Rightarrow> (error + DoubleRange) \<times> registry \<times> document" where
  "create doc reg this dr rect o' =
     (if cfg_from o' < cfg_min o' \<or> cfg_from o' > cfg_max o' then (Inl RangeError, reg, doc)
      else if cfg_to o' < cfg_min o' \<or> cfg_to o' > cfg_max o' then (Inl RangeError, reg, doc)
      else if cfg_from o' \<ge> cfg_to o' then (Inl RangeError, reg, doc)
      else
        (case getElement doc (selector o') of
           Inl e \<Rightarrow> (Inl e, reg, doc)
         | Inr el \<Rightarrow>
             let doc' = doc\<lparr>below := (below doc)(el := generated dr rect o')\<rparr>
             in (case constructor doc' reg this o' of (r, reg') \<Rightarrow> (r, reg', doc'))))"

subsection \<open>Label layout\<close>

text \<open>
  The method \<^verbatim>\<open>#updateFromToLabels\<close> writes the \<^verbatim>\<open>left\<close> style of the two
  value labels as \<^verbatim>\<open>calc(p% + d px)\<close> and reads their boxes back with
  \<^verbatim>\<open>getBoundingClientRect\<close>. A style value is a percentage and a pixel offset; the
  browser's layout of a label is a parameter, a function from the style value of the
  label to its box.
\<close>

record css_left =
  percent :: number
  px :: number











subsection \<open>Concrete widgets\<close>

text \<open>
  An idle widget without guards and with nothing scheduled, on a track 100 pixels wide
  at the left edge of the viewport.
\<close>

definition widget :: "number \<Rightarrow> number \<Rightarrow> number \<Rightarrow> number \<Rightarrow> number \<Rightarrow> DoubleRange" where
  "widget mn mx st f t =
     \<lparr>minValue = mn, maxValue = mx, step = st, fromValue = f, toValue = t,
      beforeFromChange = None, beforeToChange = None,
      isDragging = None, duringDrag = False,
      trackRect = Some \<lparr>rect_left = 0, rect_width = 100\<rparr>, callbackTimer = None,
      fromThumb = \<lparr>aria_valuemin = Some mn, aria_valuemax = Some mx, aria_valuenow = Some f\<rparr>,
      toThumb = \<lparr>aria_valuemin = Some mn, aria_valuemax = Some mx, aria_valuenow = Some t\<rparr>,
      timers = [], timerCount = 0, delivered = []\<rparr>"

text \<open>A guard that vetoes every change.\<close>

definition never :: "number \<Rightarrow> number \<Rightarrow> bool" where
  "never a b = False"

text \<open>The track, when cached, has a width other than zero.\<close>

definition measurable :: "DoubleRange \<Rightarrow> bool" where
  "measurable s \<longleftrightarrow> (case trackRect s of None \<Rightarrow> True | Some r \<Rightarrow> rect_width r \<noteq> 0)"

text \<open>
  A configuration for the host element \<^verbatim>\<open>#slider\<close>, and a page on which that
  selector matches element 0, with the given markup below it.
\<close>

definition cfg :: "number \<Rightarrow> number \<Rightarrow> number \<Rightarrow> number \<Rightarrow> number \<Rightarrow> config" where
  "cfg mn mx st f t =
     \<lparr>selector = ''#slider'', cfg_min = mn, cfg_max = mx, cfg_from = f, cfg_to = t,
      cfg_step = st, cfg_beforeFromChange = None, cfg_beforeToChange = None\<rparr>"

definition page :: "markup \<Rightarrow> document" where
  "page m =
     \<lparr>querySelectorAll = (\<lambda>sel. if sel = ''#slider'' then [0] else []),
      below = (\<lambda>e. m)\<rparr>"

text \<open>
  Markup of the shape \<open>create\<close> generates, already present in the page: the
  \<^verbatim>\<open>.double-range\<close> element is element 1, the track is 100 pixels wide.
\<close>

definition served :: "config \<Rightarrow> markup" where
  "served o' = generated 1 \<lparr>rect_left = 0, rect_width = 100\<rparr> o'"

subsection \<open>Sequences of operations\<close>

text \<open>
  Everything that acts on a bound widget: the calls of the public interface, a click on
  the track, a key on a focused handle, and the events of a drag gesture. After a setter
  that throws, the widget is in the state the setter left.
\<close>

datatype call =
    SetFrom number bool
  | SetTo number bool
  | SetMin number bool
  | SetMax number bool
  | Update UpdateOptions bool
  | TrackClick number
  | KeyDown key ThumbType
  | Gesture event

fun perform :: "call \<Rightarrow> DoubleRange \<Rightarrow> DoubleRange option" where
  "perform (SetFrom v fc) s = map_option snd (setFrom s v fc)"
| "perform (SetTo v fc) s = map_option snd (setTo s v fc)"
| "perform (SetMin v fc) s = Some (snd (setMin s v fc))"
| "perform (SetMax v fc) s = Some (snd (setMax s v fc))"
| "perform (Update o' fc) s = Some (snd (update s o' fc))"
| "perform (TrackClick x) s = trackClicked s x"
| "perform (KeyDown k type) s = onKey s k type"
| "perform (Gesture e) s = handle e s"

fun performs :: "call list \<Rightarrow> DoubleRange \<Rightarrow> DoubleRange option" where
  "performs [] s = Some s"
| "performs (c # cs) s = (case perform c s of None \<Rightarrow> None | Some s' \<Rightarrow> performs cs s')"

text \<open>The operations that do not end a drag.\<close>

fun keeps_dragging :: "call \<Rightarrow> bool" where
  "keeps_dragging (Gesture DragEnd) = False"
| "keeps_dragging c = True"

section \<open>The setters over the numbers of JavaScript\<close>

text \<open>
  A \<^verbatim>\<open>number\<close> is a finite value, one of the two infinities, or \<^verbatim>\<open>NaN\<close>.
  The comparisons are those of the language: every comparison with \<^verbatim>\<open>NaN\<close> is
  false, also \<^verbatim>\<open>NaN === NaN\<close>. The two zeros compare equal and are one value here.
\<close>

datatype jsnum = Fin rat | PInf | NInf | NaN

definition js_lt :: "jsnum \<Rightarrow> jsnum \<Rightarrow> bool" where
  "js_lt a b =
     (case (a, b) of
        (Fin x, Fin y) \<Rightarrow> x < y
      | (Fin x, PInf) \<Rightarrow> True
      | (NInf, Fin y) \<Rightarrow> True
      | (NInf, PInf) \<Rightarrow> True
      | _ \<Rightarrow> False)"

definition js_eq :: "jsnum \<Rightarrow> jsnum \<Rightarrow> bool" where
  "js_eq a b =
     (case (a, b) of
        (Fin x, Fin y) \<Rightarrow> x = y
      | (PInf, PInf) \<Rightarrow> True
      | (NInf, NInf) \<Rightarrow> True
      | _ \<Rightarrow> False)"

definition js_le :: "jsnum \<Rightarrow> jsnum \<Rightarrow> bool" where
  "js_le a b \<longleftrightarrow> js_lt a b \<or> js_eq a b"

definition js_gt :: "jsnum \<Rightarrow> jsnum \<Rightarrow> bool" where
  "js_gt a b \<longleftrightarrow> js_lt b a"

definition js_ge :: "jsnum \<Rightarrow> jsnum \<Rightarrow> bool" where
  "js_ge a b \<longleftrightarrow> js_le b a"

text \<open>
  Subtraction and addition compute the exact result and round it to a number. The
  rounding \<open>rnd\<close> is a parameter of the model, so what is proved holds for every
  rounding, that of 64-bit floating point among them; it may return the number it is
  given, a neighbour, or an infinity. The special values follow the standard.
\<close>

definition js_sub :: "(rat \<Rightarrow> jsnum) \<Rightarrow> jsnum \<Rightarrow> jsnum \<Rightarrow> jsnum" where
  "js_sub rnd a b =
     (case (a, b) of
        (Fin x, Fin y) \<Rightarrow> rnd (x - y)
      | (Fin x, PInf) \<Rightarrow> NInf
      | (Fin x, NInf) \<Rightarrow> PInf
      | (PInf, Fin y) \<Rightarrow> PInf
      | (PInf, NInf) \<Rightarrow> PInf
      | (NInf, Fin y) \<Rightarrow> NInf
      | (NInf, PInf) \<Rightarrow> NInf
      | _ \<Rightarrow> NaN)"

definition js_add :: "(rat \<Rightarrow> jsnum) \<Rightarrow> jsnum \<Rightarrow> jsnum \<Rightarrow> jsnum" where
  "js_add rnd a b =
     (case (a, b) of
        (Fin x, Fin y) \<Rightarrow> rnd (x + y)
      | (Fin x, PInf) \<Rightarrow> PInf
      | (Fin x, NInf) \<Rightarrow> NInf
      | (PInf, Fin y) \<Rightarrow> PInf
      | (PInf, PInf) \<Rightarrow> PInf
      | (NInf, Fin y) \<Rightarrow> NInf
      | (NInf, NInf) \<Rightarrow> NInf
      | _ \<Rightarrow> NaN)"

text \<open>
  A guard is a function of the host application. Called with the two numbers it can
  call the public methods of the widget before it answers, so it takes the widget from
  one state into another. \<open>None\<close> is a guard that does not return. The guard fields of
  the widget say whether a function is registered; what the registered function does is
  an argument of the setter.
\<close>

type_synonym JSRange = "(jsnum, unit) slider"

type_synonym guard = "jsnum \<Rightarrow> jsnum \<Rightarrow> JSRange \<Rightarrow> (bool \<times> JSRange) option"

text \<open>
  \<^verbatim>\<open>g !== null && !g(a, b)\<close>: without a registered function nothing is called and
  the change is allowed.
\<close>

definition ask :: "unit option \<Rightarrow> guard \<Rightarrow> jsnum \<Rightarrow> jsnum \<Rightarrow> JSRange \<Rightarrow> (bool \<times> JSRange) option" where
  "ask registered g a b s = (case registered of None \<Rightarrow> Some (True, s) | Some u \<Rightarrow> g a b s)"

definition setMin_js :: "JSRange \<Rightarrow> jsnum \<Rightarrow> bool \<Rightarrow> (error + unit) \<times> JSRange" where
  "setMin_js s v fireCallback =
     (if js_ge v (maxValue s) then (Inl RangeError, s)
      else if js_gt v (fromValue s) then (Inl RangeError, s)
      else
        let s1 = s\<lparr>minValue := v,
                   fromThumb := (fromThumb s)\<lparr>aria_valuemin := Some v\<rparr>,
                   toThumb := (toThumb s)\<lparr>aria_valuemin := Some v\<rparr>\<rparr>
        in (Inr (), if fireCallback then scheduleCallback s1 else s1))"

definition setMax_js :: "JSRange \<Rightarrow> jsnum \<Rightarrow> bool \<Rightarrow> (error + unit) \<times> JSRange" where
  "setMax_js s v fireCallback =
     (if js_le v (minValue s) then (Inl RangeError, s)
      else if js_lt v (toValue s) then (Inl RangeError, s)
      else
        let s1 = s\<lparr>maxValue := v,
                   fromThumb := (fromThumb s)\<lparr>aria_valuemax := Some v\<rparr>,
                   toThumb := (toThumb s)\<lparr>aria_valuemax := Some v\<rparr>\<rparr>
        in (Inr (), if fireCallback then scheduleCallback s1 else s1))"

text \<open>
  \<^verbatim>\<open>setFrom\<close>: the guard is asked in the state the tests have passed in, and the
  assignment and the scheduling that follow act on the state the guard has left.
\<close>

partial_function (option) setFrom_js ::
  "(rat \<Rightarrow> jsnum) \<Rightarrow> guard \<Rightarrow> JSRange \<Rightarrow> jsnum \<Rightarrow> bool \<Rightarrow> (exit \<times> JSRange) option" where
  "setFrom_js rnd before s v fireCallback =
     (if js_lt v (minValue s) \<or> js_gt v (maxValue s) then Some (OutOfRange, s)
      else if js_ge v (toValue s) then
        do { r \<leftarrow> setFrom_js rnd before s (js_sub rnd (toValue s) (step s)) True;
             Some (OrderViolation, snd r) }
      else if js_eq v (toValue s) then Some (NoChange, s)
      else
        do { a \<leftarrow> ask (beforeFromChange s) before v (toValue s) s;
             if \<not> fst a then Some (Vetoed, snd a)
             else
               let s1 = (snd a)\<lparr>fromValue := v,
                                 fromThumb := (fromThumb (snd a))\<lparr>aria_valuenow := Some v\<rparr>\<rparr>
               in Some (Accepted, if fireCallback then scheduleCallback s1 else s1) })"

partial_function (option) setTo_js ::
  "(rat \<Rightarrow> jsnum) \<Rightarrow> guard \<Rightarrow> JSRange \<Rightarrow> jsnum \<Rightarrow> bool \<Rightarrow> (exit \<times> JSRange) option" where
  "setTo_js rnd before s v fireCallback =
     (if js_lt v (minValue s) \<or> js_gt v (maxValue s) then Some (OutOfRange, s)
      else if js_le v (fromValue s) then
        do { r \<leftarrow> setTo_js rnd before s (js_add rnd (fromValue s) (step s)) True;
             Some (OrderViolation, snd r) }
      else if js_eq v (toValue s) then Some (NoChange, s)
      else
        do { a \<leftarrow> ask (beforeToChange s) before (fromValue s) v s;
             if \<not> fst a then Some (Vetoed, snd a)
             else
               let s1 = (snd a)\<lparr>toValue := v,
                                 toThumb := (toThumb (snd a))\<lparr>aria_valuenow := Some v\<rparr>\<rparr>
               in Some (Accepted, if fireCallback then scheduleCallback s1 else s1) })"

definition update_js :: "JSRange \<Rightarrow> jsnum options \<Rightarrow> bool \<Rightarrow> (error + unit) \<times> JSRange" where
  "update_js s o' fireCallback =
     (let n = merged s o' in
      if js_ge (next_min n) (next_max n) then (Inl RangeError, s)
      else if js_lt (next_from n) (next_min n) \<or> js_gt (next_from n) (next_max n)
      then (Inl RangeError, s)
      else if js_lt (next_to n) (next_min n) \<or> js_gt (next_to n) (next_max n)
      then (Inl RangeError, s)
      else if js_ge (next_from n) (next_to n) then (Inl RangeError, s)
      else
        let s1 = s\<lparr>minValue := next_min n, maxValue := next_max n,
                   fromValue := next_from n, toValue := next_to n,
                   fromThumb := \<lparr>aria_valuemin = Some (next_min n),
                                 aria_valuemax = Some (next_max n),
                                 aria_valuenow = Some (next_from n)\<rparr>,
                   toThumb := \<lparr>aria_valuemin = Some (next_min n),
                               aria_valuemax = Some (next_max n),
                               aria_valuenow = Some (next_to n)\<rparr>\<rparr>
        in (Inr (), if fireCallback then scheduleCallback s1 else s1))"

text \<open>The ordering invariant, and the constraints on merged values, in these comparisons.\<close>

definition ordered_js :: "JSRange \<Rightarrow> bool" where
  "ordered_js s \<longleftrightarrow>
     js_lt (minValue s) (maxValue s) \<and> js_le (minValue s) (fromValue s) \<and>
     js_lt (fromValue s) (toValue s) \<and> js_le (toValue s) (maxValue s)"

definition next_ordered_js :: "jsnum merged_values \<Rightarrow> bool" where
  "next_ordered_js n \<longleftrightarrow>
     js_lt (next_min n) (next_max n) \<and> js_le (next_min n) (next_from n) \<and>
     js_lt (next_from n) (next_to n) \<and> js_le (next_to n) (next_max n)"

text \<open>
  A widget of the finite model as a widget of this one: the same numbers, as finite
  values, and the same registrations.
\<close>

definition as_js :: "DoubleRange \<Rightarrow> JSRange" where
  "as_js s =
     \<lparr>minValue = Fin (minValue s), maxValue = Fin (maxValue s), step = Fin (step s),
      fromValue = Fin (fromValue s), toValue = Fin (toValue s),
      beforeFromChange = map_option (\<lambda>g. ()) (beforeFromChange s),
      beforeToChange = map_option (\<lambda>g. ()) (beforeToChange s),
      isDragging = isDragging s, duringDrag = duringDrag s,
      trackRect = trackRect s, callbackTimer = callbackTimer s,
      fromThumb = \<lparr>aria_valuemin = map_option Fin (aria_valuemin (fromThumb s)),
                    aria_valuemax = map_option Fin (aria_valuemax (fromThumb s)),
                    aria_valuenow = map_option Fin (aria_valuenow (fromThumb s))\<rparr>,
      toThumb = \<lparr>aria_valuemin = map_option Fin (aria_valuemin (toThumb s)),
                  aria_valuemax = map_option Fin (aria_valuemax (toThumb s)),
                  aria_valuenow = map_option Fin (aria_valuenow (toThumb s))\<rparr>,
      timers = timers s, timerCount = timerCount s,
      delivered = map (\<lambda>(a, b). (Fin a, Fin b)) (delivered s)\<rparr>"

text \<open>The argument of \<open>update\<close>, likewise.\<close>

definition as_js_options :: "UpdateOptions \<Rightarrow> jsnum options" where
  "as_js_options o' =
     \<lparr>opt_min = map_option Fin (opt_min o'), opt_max = map_option Fin (opt_max o'),
      opt_from = map_option Fin (opt_from o'), opt_to = map_option Fin (opt_to o')\<rparr>"

text \<open>
  A guard of the finite model as a guard of this one: it answers on finite numbers and
  leaves the widget as it is.
\<close>

definition as_guard :: "(number \<Rightarrow> number \<Rightarrow> bool) \<Rightarrow> guard" where
  "as_guard p a b s =
     (case (a, b) of (Fin x, Fin y) \<Rightarrow> Some (p x y, s) | _ \<Rightarrow> None)"

text \<open>A guard that allows every change and does nothing else.\<close>

definition allow :: guard where
  "allow a b s = Some (True, s)"

text \<open>
  The guard \<^verbatim>\<open>beforeFromChangeFn\<close> of the third example of the demonstration page,
  whose widget rounds nothing: when the two handles would come closer than 100 it calls
  \<^verbatim>\<open>setFrom(to - 100)\<close> itself, on the widget that has this same guard, and vetoes the
  change it was asked about. The guard and the setter call each other; the number counts
  the nested calls of the guard that the call stack still has room for, and without room
  the call does not return.
\<close>

fun keep_distance :: "nat \<Rightarrow> guard" where
  "keep_distance 0 a b s = None"
| "keep_distance (Suc n) a b s =
     (if js_lt (js_sub Fin b a) (Fin 100)
      then do { r \<leftarrow> setFrom_js Fin (keep_distance n) s (js_sub Fin b (Fin 100)) True;
                Some (False, snd r) }
      else Some (True, s))"

text \<open>A guard that vetoes every change and does nothing else.\<close>

definition refuse :: guard where
  "refuse a b s = Some (False, s)"

text \<open>
  The third widget of the demonstration page, which registers both guards: bounds 30
  and 500, step 1, values 100 and 400.
\<close>

definition example3 :: JSRange where
  "example3 = (as_js (widget 30 500 1 100 400))\<lparr>beforeFromChange := Some (), beforeToChange := Some ()\<rparr>"

section \<open>Properties\<close>

subsection \<open>The two recursive setters, case by case\<close>

text \<open>
  With a positive step the recursion of \<open>setFrom\<close> and \<open>setTo\<close> ends after one inner
  call, so every call returns, in one of three ways: it rejects and leaves the state as
  it was, it accepts the value, or it rejects the value and its inner call has written
  the corrected one.
\<close>
lemma setFrom_cases [consumes 1, case_names reject accept corrective]:
  assumes "0 < step s"
  obtains (reject) e where "setFrom s v fc = Some (e, s)" "e \<noteq> Accepted"
  | (accept) "setFrom s v fc = Some (Accepted,
        (if fc then scheduleCallback else id)
          (s\<lparr>fromValue := v, fromThumb := (fromThumb s)\<lparr>aria_valuenow := Some v\<rparr>\<rparr>))"
       "minValue s \<le> v" "v \<le> maxValue s" "v < toValue s"
       "\<not> vetoes (beforeFromChange s) v (toValue s)"
  | (corrective) "setFrom s v fc = Some (OrderViolation,
        scheduleCallback
          (s\<lparr>fromValue := toValue s - step s,
             fromThumb := (fromThumb s)\<lparr>aria_valuenow := Some (toValue s - step s)\<rparr>\<rparr>))"
       "minValue s \<le> v" "v \<le> maxValue s" "toValue s \<le> v"
       "minValue s \<le> toValue s - step s" "toValue s - step s \<le> maxValue s"
       "\<not> vetoes (beforeFromChange s) (toValue s - step s) (toValue s)"
proof -
  let ?w = "toValue s - step s"
  have w: "?w < toValue s" using assms by simp
  have inner: "setFrom s ?w True =
     (if ?w < minValue s \<or> ?w > maxValue s then Some (OutOfRange, s)
      else if vetoes (beforeFromChange s) ?w (toValue s) then Some (Vetoed, s)
      else Some (Accepted, scheduleCallback
          (s\<lparr>fromValue := ?w, fromThumb := (fromThumb s)\<lparr>aria_valuenow := Some ?w\<rparr>\<rparr>)))"
    using w by (subst setFrom.simps) (simp add: Let_def)
  show thesis
  proof (cases "v < minValue s \<or> v > maxValue s")
    case True
    then have "setFrom s v fc = Some (OutOfRange, s)" by (subst setFrom.simps) simp
    then show ?thesis using reject by simp
  next
    case rng: False
    show ?thesis
    proof (cases "toValue s \<le> v")
      case True
      then have outer: "setFrom s v fc = (setFrom s ?w True \<bind> (\<lambda>r. Some (OrderViolation, snd r)))"
        using rng by (subst setFrom.simps) simp
      show ?thesis
      proof (cases "(?w < minValue s \<or> ?w > maxValue s) \<or> vetoes (beforeFromChange s) ?w (toValue s)")
        case True
        then have "setFrom s v fc = Some (OrderViolation, s)"
          unfolding outer inner by auto
        then show ?thesis using reject by simp
      next
        case False
        then have "setFrom s v fc = Some (OrderViolation, scheduleCallback
          (s\<lparr>fromValue := ?w, fromThumb := (fromThumb s)\<lparr>aria_valuenow := Some ?w\<rparr>\<rparr>))"
          unfolding outer inner by auto
        then show ?thesis using corrective rng True False by simp
      qed
    next
      case lt: False
      show ?thesis
      proof (cases "vetoes (beforeFromChange s) v (toValue s)")
        case True
        then have "setFrom s v fc = Some (Vetoed, s)"
          using rng lt by (subst setFrom.simps) simp
        then show ?thesis using reject by simp
      next
        case False
        then have "setFrom s v fc = Some (Accepted,
        (if fc then scheduleCallback else id)
          (s\<lparr>fromValue := v, fromThumb := (fromThumb s)\<lparr>aria_valuenow := Some v\<rparr>\<rparr>))"
          using rng lt by (subst setFrom.simps) (simp add: Let_def)
        then show ?thesis using accept rng lt False by simp
      qed
    qed
  qed
qed

lemma setTo_cases [consumes 1, case_names reject accept corrective]:
  assumes "0 < step s"
  obtains (reject) e where "setTo s v fc = Some (e, s)" "e \<noteq> Accepted"
  | (accept) "setTo s v fc = Some (Accepted,
        (if fc then scheduleCallback else id)
          (s\<lparr>toValue := v, toThumb := (toThumb s)\<lparr>aria_valuenow := Some v\<rparr>\<rparr>))"
       "minValue s \<le> v" "v \<le> maxValue s" "fromValue s < v" "v \<noteq> toValue s"
       "\<not> vetoes (beforeToChange s) (fromValue s) v"
  | (corrective) "setTo s v fc = Some (OrderViolation,
        scheduleCallback
          (s\<lparr>toValue := fromValue s + step s,
             toThumb := (toThumb s)\<lparr>aria_valuenow := Some (fromValue s + step s)\<rparr>\<rparr>))"
       "minValue s \<le> v" "v \<le> maxValue s" "v \<le> fromValue s"
       "minValue s \<le> fromValue s + step s" "fromValue s + step s \<le> maxValue s"
       "fromValue s + step s \<noteq> toValue s"
       "\<not> vetoes (beforeToChange s) (fromValue s) (fromValue s + step s)"
proof -
  let ?w = "fromValue s + step s"
  have w: "fromValue s < ?w" using assms by simp
  have inner: "setTo s ?w True =
     (if ?w < minValue s \<or> ?w > maxValue s then Some (OutOfRange, s)
      else if ?w = toValue s then Some (NoChange, s)
      else if vetoes (beforeToChange s) (fromValue s) ?w then Some (Vetoed, s)
      else Some (Accepted, scheduleCallback
          (s\<lparr>toValue := ?w, toThumb := (toThumb s)\<lparr>aria_valuenow := Some ?w\<rparr>\<rparr>)))"
    using w by (subst setTo.simps) (simp add: Let_def)
  show thesis
  proof (cases "v < minValue s \<or> v > maxValue s")
    case True
    then have "setTo s v fc = Some (OutOfRange, s)" by (subst setTo.simps) simp
    then show ?thesis using reject by simp
  next
    case rng: False
    show ?thesis
    proof (cases "v \<le> fromValue s")
      case True
      then have outer: "setTo s v fc = (setTo s ?w True \<bind> (\<lambda>r. Some (OrderViolation, snd r)))"
        using rng by (subst setTo.simps) simp
      show ?thesis
      proof (cases "(?w < minValue s \<or> ?w > maxValue s) \<or> ?w = toValue s
                    \<or> vetoes (beforeToChange s) (fromValue s) ?w")
        case True
        then have "setTo s v fc = Some (OrderViolation, s)"
          unfolding outer inner by auto
        then show ?thesis using reject by simp
      next
        case False
        then have "setTo s v fc = Some (OrderViolation, scheduleCallback
          (s\<lparr>toValue := ?w, toThumb := (toThumb s)\<lparr>aria_valuenow := Some ?w\<rparr>\<rparr>))"
          unfolding outer inner by auto
        then show ?thesis using corrective rng True False by simp
      qed
    next
      case gt: False
      show ?thesis
      proof (cases "v = toValue s \<or> vetoes (beforeToChange s) (fromValue s) v")
        case True
        then have "setTo s v fc = Some (NoChange, s) \<or> setTo s v fc = Some (Vetoed, s)"
          using rng gt by (subst (1 2) setTo.simps) auto
        then show ?thesis using reject by auto
      next
        case False
        then have "setTo s v fc = Some (Accepted,
        (if fc then scheduleCallback else id)
          (s\<lparr>toValue := v, toThumb := (toThumb s)\<lparr>aria_valuenow := Some v\<rparr>\<rparr>))"
          using rng gt by (subst setTo.simps) (simp add: Let_def)
        then show ?thesis using accept rng gt False by simp
      qed
    qed
  qed
qed

lemma scheduleCallback_values [simp]:
  "minValue (scheduleCallback s) = minValue s"
  "maxValue (scheduleCallback s) = maxValue s"
  "fromValue (scheduleCallback s) = fromValue s"
  "toValue (scheduleCallback s) = toValue s"
  "step (scheduleCallback s) = step s"
  by (simp_all add: scheduleCallback_def clearCallbackTimer_def clearTimeout_def setTimeout_def
      Let_def split: option.splits)

lemma scheduleCallback_frame [simp]:
  "beforeFromChange (scheduleCallback s) = beforeFromChange s"
  "beforeToChange (scheduleCallback s) = beforeToChange s"
  "isDragging (scheduleCallback s) = isDragging s"
  "duringDrag (scheduleCallback s) = duringDrag s"
  "trackRect (scheduleCallback s) = trackRect s"
  "delivered (scheduleCallback s) = delivered s"
  by (simp_all add: scheduleCallback_def clearCallbackTimer_def clearTimeout_def setTimeout_def
      Let_def split: option.splits)

lemma clearCallbackTimer_frame [simp]:
  "minValue (clearCallbackTimer s) = minValue s"
  "maxValue (clearCallbackTimer s) = maxValue s"
  "fromValue (clearCallbackTimer s) = fromValue s"
  "toValue (clearCallbackTimer s) = toValue s"
  "step (clearCallbackTimer s) = step s"
  "isDragging (clearCallbackTimer s) = isDragging s"
  "duringDrag (clearCallbackTimer s) = duringDrag s"
  "trackRect (clearCallbackTimer s) = trackRect s"
  "delivered (clearCallbackTimer s) = delivered s"
  by (simp_all add: clearCallbackTimer_def clearTimeout_def split: option.splits)

lemma setFrom_returns: "0 < step s \<Longrightarrow> \<exists>e s'. setFrom s v fc = Some (e, s')"
  by (erule setFrom_cases [where v = v and fc = fc]) auto

lemma setTo_returns: "0 < step s \<Longrightarrow> \<exists>e s'. setTo s v fc = Some (e, s')"
  by (erule setTo_cases [where v = v and fc = fc]) auto

subsection \<open>The ordering invariant is kept by every operation\<close>

lemma ordered_scheduleCallback [simp]: "ordered (scheduleCallback s) = ordered s"
  by (simp add: ordered_def)

lemma setFrom_ordered:
  assumes "0 < step s" "ordered s" "setFrom s v fc = Some (e, s')"
  shows "ordered s' \<and> step s' = step s"
  using assms(1)
proof (cases rule: setFrom_cases [where v = v and fc = fc])
  case (reject e)
  then show ?thesis using assms by simp
next
  case accept
  then show ?thesis using assms by (auto simp: ordered_def)
next
  case corrective
  then show ?thesis using assms by (auto simp: ordered_def)
qed

lemma setTo_ordered:
  assumes "0 < step s" "ordered s" "setTo s v fc = Some (e, s')"
  shows "ordered s' \<and> step s' = step s"
  using assms(1)
proof (cases rule: setTo_cases [where v = v and fc = fc])
  case (reject e)
  then show ?thesis using assms by simp
next
  case accept
  then show ?thesis using assms by (auto simp: ordered_def)
next
  case corrective
  then show ?thesis using assms by (auto simp: ordered_def)
qed

lemma setMin_ordered: "ordered s \<Longrightarrow> ordered (snd (setMin s v fc)) \<and> step (snd (setMin s v fc)) = step s"
  by (auto simp: setMin_def ordered_def Let_def)

lemma setMax_ordered: "ordered s \<Longrightarrow> ordered (snd (setMax s v fc)) \<and> step (snd (setMax s v fc)) = step s"
  by (auto simp: setMax_def ordered_def Let_def)

lemma update_ordered: "ordered s \<Longrightarrow> ordered (snd (update s o' fc)) \<and> step (snd (update s o' fc)) = step s"
  by (auto simp: update_def ordered_def Let_def)

lemma setValue_ordered:
  "0 < step s \<Longrightarrow> ordered s \<Longrightarrow> setValue s type v = Some s' \<Longrightarrow> ordered s' \<and> step s' = step s"
  by (cases type) (auto simp: setValue_def dest: setFrom_ordered setTo_ordered)

lemma trackClicked_ordered:
  "0 < step s \<Longrightarrow> ordered s \<Longrightarrow> trackClicked s x = Some s' \<Longrightarrow> ordered s' \<and> step s' = step s"
  by (auto simp: trackClicked_def split: option.splits bind_splits if_splits
      dest: setFrom_ordered setTo_ordered)

lemma onDragMove_ordered:
  "0 < step s \<Longrightarrow> ordered s \<Longrightarrow> onDragMove s x = Some s' \<Longrightarrow> ordered s' \<and> step s' = step s"
  by (auto simp: onDragMove_def split: option.splits bind_splits if_splits
      dest: setValue_ordered)

lemma onKey_ordered:
  "0 < step s \<Longrightarrow> ordered s \<Longrightarrow> onKey s k type = Some s' \<Longrightarrow> ordered s' \<and> step s' = step s"
  by (auto simp: onKey_def split: if_splits dest!: setValue_ordered)

lemma onDragStart_ordered: "ordered (onDragStart s type) = ordered s"
  by (simp add: onDragStart_def ordered_def clearCallbackTimer_def clearTimeout_def
      split: option.splits)

lemma onDragEnd_ordered: "ordered (onDragEnd s) = ordered s"
  by (simp add: onDragEnd_def ordered_def split: option.splits)

lemma timerFired_ordered: "ordered (timerFired i s) = ordered s"
  by (simp add: timerFired_def ordered_def)

text \<open>A widget bound by \<open>create\<close> starts inside the invariant.\<close>

lemma create_ordered:
  "create doc reg this dr rect o' = (Inr s, reg', doc') \<Longrightarrow> ordered s"
  by (auto simp: create_def constructor_def getElement_def generated_def attr_or_def
      or_else_def ordered_def Let_def split: if_splits sum.splits list.splits)

lemma timersElapse_ordered: "ordered (timersElapse s) = ordered s"
proof -
  have "ordered (fold timerFired is s) = ordered s" for "is"
    by (induction "is" arbitrary: s) (simp_all add: timerFired_ordered)
  then show ?thesis by (simp add: timersElapse_def)
qed

lemma timerFired_frame [simp]:
  "step (timerFired i s) = step s" "trackRect (timerFired i s) = trackRect s"
  by (simp_all add: timerFired_def)

lemma timersElapse_frame [simp]:
  "step (timersElapse s) = step s" "trackRect (timersElapse s) = trackRect s"
proof -
  have "step (fold timerFired is s) = step s \<and> trackRect (fold timerFired is s) = trackRect s"
    for "is"
    by (induction "is" arbitrary: s) simp_all
  then show "step (timersElapse s) = step s" "trackRect (timersElapse s) = trackRect s"
    by (simp_all add: timersElapse_def)
qed

lemma setFrom_trackRect:
  "0 < step s \<Longrightarrow> setFrom s v fc = Some (e, s') \<Longrightarrow> trackRect s' = trackRect s"
  by (erule setFrom_cases [where v = v and fc = fc]) auto

lemma setTo_trackRect:
  "0 < step s \<Longrightarrow> setTo s v fc = Some (e, s') \<Longrightarrow> trackRect s' = trackRect s"
  by (erule setTo_cases [where v = v and fc = fc]) auto

lemma setValue_returns:
  assumes "0 < step s"
  shows "\<exists>s'. setValue s type v = Some s' \<and> trackRect s' = trackRect s"
proof (cases type)
  case From
  with setFrom_returns [OF assms, of v True] setFrom_trackRect [OF assms, of v True]
  show ?thesis by (auto simp: setValue_def)
next
  case To
  with setTo_returns [OF assms, of v True] setTo_trackRect [OF assms, of v True]
  show ?thesis by (auto simp: setValue_def)
qed

lemma snapValue_returns: "step s \<noteq> 0 \<Longrightarrow> \<exists>c. snapValue s p = Some c"
  by (simp add: snapValue_def js_div_def)

lemma trackClicked_returns:
  assumes "0 < step s" and "measurable s"
  shows "\<exists>s'. trackClicked s x = Some s' \<and> trackRect s' = trackRect s"
proof (cases "trackRect s")
  case None
  then show ?thesis by (simp add: trackClicked_def)
next
  case (Some r)
  then have width: "rect_width r \<noteq> 0" using assms(2) by (simp add: measurable_def)
  obtain c where c: "snapValue s ((x - rect_left r) / rect_width r) = Some c"
    using snapValue_returns [of s] assms(1) by fastforce
  show ?thesis
    using Some width c
      setFrom_returns [OF assms(1), of c True] setFrom_trackRect [OF assms(1), of c True]
      setTo_returns [OF assms(1), of c True] setTo_trackRect [OF assms(1), of c True]
    by (auto simp: trackClicked_def js_div_def)
qed

lemma onDragMove_returns:
  assumes "0 < step s" and "measurable s"
  shows "\<exists>s'. onDragMove s x = Some s' \<and> trackRect s' = trackRect s"
proof (cases "isDragging s")
  case None
  then show ?thesis by (simp add: onDragMove_def)
next
  case (Some type)
  show ?thesis
  proof (cases "trackRect s")
    case None
    then show ?thesis using Some by (simp add: onDragMove_def)
  next
    case (Some r)
    then have width: "rect_width r \<noteq> 0" using assms(2) by (simp add: measurable_def)
    obtain c where c: "snapValue s (max 0 (min 1 ((x - rect_left r) / rect_width r))) = Some c"
      using snapValue_returns [of s] assms(1) by fastforce
    show ?thesis
      using \<open>isDragging s = Some type\<close> Some width c setValue_returns [OF assms(1), of type c]
      by (auto simp: onDragMove_def js_div_def)
  qed
qed

lemma onKey_returns:
  assumes "0 < step s"
  shows "\<exists>s'. onKey s k type = Some s' \<and> trackRect s' = trackRect s"
  using setValue_returns [OF assms, of type "getValue s type - step s"]
    setValue_returns [OF assms, of type "getValue s type + step s"]
  by (auto simp: onKey_def)

lemma handle_returns:
  assumes "0 < step s" and "measurable s"
  shows "\<exists>s'. handle e s = Some s' \<and> trackRect s' = trackRect s"
proof (cases e)
  case (DragMove x)
  then show ?thesis using onDragMove_returns [OF assms, of x] by simp
qed (simp_all add: onDragStart_def onDragEnd_def split: option.splits)

lemma handle_ordered:
  assumes "0 < step s" and "ordered s" and "handle e s = Some s'"
  shows "ordered s' \<and> step s' = step s"
proof (cases e)
  case (DragStart type)
  then show ?thesis using assms by (auto simp: ordered_def onDragStart_def)
next
  case (DragMove x)
  then show ?thesis using assms onDragMove_ordered [of s x s'] by simp
next
  case DragEnd
  then show ?thesis using assms
    by (auto simp: ordered_def onDragEnd_def split: option.splits)
next
  case TimersElapse
  then show ?thesis using assms by (auto simp: timersElapse_ordered)
qed

text \<open>
  One operation on a widget inside the invariant, with a positive step and a track of
  non-zero width: it returns, and the widget is inside the invariant again.
\<close>

lemma perform_ordered:
  assumes "0 < step s" and "ordered s" and "measurable s"
  shows "\<exists>s'. perform c s = Some s' \<and> ordered s' \<and> step s' = step s \<and> measurable s'"
proof -
  have ret: "\<exists>s'. perform c s = Some s' \<and> trackRect s' = trackRect s"
  proof (cases c)
    case (SetFrom v fc)
    then show ?thesis
      using setFrom_returns [OF assms(1), of v fc] setFrom_trackRect [OF assms(1), of v fc]
      by auto
  next
    case (SetTo v fc)
    then show ?thesis
      using setTo_returns [OF assms(1), of v fc] setTo_trackRect [OF assms(1), of v fc]
      by auto
  next
    case (SetMin v fc)
    then show ?thesis by (simp add: setMin_def Let_def)
  next
    case (SetMax v fc)
    then show ?thesis by (simp add: setMax_def Let_def)
  next
    case (Update o' fc)
    then show ?thesis by (simp add: update_def Let_def)
  next
    case (TrackClick x)
    then show ?thesis using trackClicked_returns [OF assms(1,3), of x] by simp
  next
    case (KeyDown k type)
    then show ?thesis using onKey_returns [OF assms(1), of k type] by simp
  next
    case (Gesture e)
    then show ?thesis using handle_returns [OF assms(1,3), of e] by simp
  qed
  then obtain s' where s': "perform c s = Some s'" "trackRect s' = trackRect s" by blast
  have "ordered s' \<and> step s' = step s"
  proof (cases c)
    case (SetFrom v fc)
    then show ?thesis using s'(1) setFrom_ordered [OF assms(1,2), of v fc] by auto
  next
    case (SetTo v fc)
    then show ?thesis using s'(1) setTo_ordered [OF assms(1,2), of v fc] by auto
  next
    case (SetMin v fc)
    then show ?thesis using s'(1) setMin_ordered [OF assms(2), of v fc] by auto
  next
    case (SetMax v fc)
    then show ?thesis using s'(1) setMax_ordered [OF assms(2), of v fc] by auto
  next
    case (Update o' fc)
    then show ?thesis using s'(1) update_ordered [OF assms(2), of o' fc] by auto
  next
    case (TrackClick x)
    then show ?thesis using s'(1) trackClicked_ordered [OF assms(1,2), of x s'] by simp
  next
    case (KeyDown k type)
    then show ?thesis using s'(1) onKey_ordered [OF assms(1,2), of k type s'] by simp
  next
    case (Gesture e)
    then show ?thesis using s'(1) handle_ordered [OF assms(1,2), of e s'] by simp
  qed
  moreover have "measurable s'" using assms(3) s'(2) by (simp add: measurable_def)
  ultimately show ?thesis using s'(1) by simp
qed

text \<open>So does every sequence of operations.\<close>

lemma performs_ordered:
  assumes "0 < step s" and "ordered s" and "measurable s"
  shows "\<exists>s'. performs cs s = Some s' \<and> ordered s' \<and> step s' = step s"
  using assms
proof (induction cs arbitrary: s)
  case Nil
  then show ?case by simp
next
  case (Cons c cs)
  from perform_ordered [OF Cons.prems, of c] obtain s1 where
    s1: "perform c s = Some s1" "ordered s1" "step s1 = step s" "measurable s1"
    by blast
  from Cons.IH [of s1] s1 Cons.prems(1) show ?case by auto
qed

subsection \<open>Timers during a drag\<close>

lemma clearCallbackTimer_held: "timers_held s \<Longrightarrow> timers (clearCallbackTimer s) = []"
  by (auto simp: timers_held_def clearCallbackTimer_def clearTimeout_def
      split: list.splits option.splits)

lemma clearCallbackTimer_none: "timers s = [] \<Longrightarrow> timers (clearCallbackTimer s) = []"
  by (simp add: clearCallbackTimer_def clearTimeout_def split: option.splits)

text \<open>While the drag flag is set, scheduling arms nothing.\<close>

lemma scheduleCallback_suppressed:
  "duringDrag s \<Longrightarrow> scheduleCallback s = clearCallbackTimer s"
  by (simp add: scheduleCallback_def Let_def)

text \<open>Outside a drag, scheduling leaves exactly one armed timeout, the one it holds.\<close>

lemma scheduleCallback_arms:
  "\<not> duringDrag s \<Longrightarrow> timers_held s \<Longrightarrow>
     timers (scheduleCallback s) = [Suc (timerCount s)] \<and>
     callbackTimer (scheduleCallback s) = Some (Suc (timerCount s))"
  by (auto simp: scheduleCallback_def setTimeout_def Let_def timers_held_def
      clearCallbackTimer_def clearTimeout_def split: list.splits option.splits)

lemma scheduleCallback_held: "timers_held s \<Longrightarrow> timers_held (scheduleCallback s)"
proof (cases "duringDrag s")
  case True
  assume "timers_held s"
  then have "timers (scheduleCallback s) = []"
    using True by (simp add: scheduleCallback_suppressed clearCallbackTimer_held)
  then show ?thesis by (simp add: timers_held_def)
next
  case False
  assume "timers_held s"
  with False show ?thesis
    using scheduleCallback_arms [of s] by (simp add: timers_held_def)
qed

lemma setFrom_dragging:
  assumes "0 < step s" and "duringDrag s" and "timers s = []"
  shows "\<exists>e s'. setFrom s v fc = Some (e, s') \<and> step s' = step s \<and>
           trackRect s' = trackRect s \<and> duringDrag s' \<and> isDragging s' = isDragging s \<and>
           timers s' = [] \<and> delivered s' = delivered s"
  using assms(1)
proof (cases rule: setFrom_cases [where v = v and fc = fc])
  case (reject e)
  then show ?thesis using assms by simp
next
  case accept
  then show ?thesis using assms
    by (cases fc) (simp_all add: scheduleCallback_suppressed clearCallbackTimer_none)
next
  case corrective
  then show ?thesis using assms
    by (simp add: scheduleCallback_suppressed clearCallbackTimer_none)
qed

lemma setTo_dragging:
  assumes "0 < step s" and "duringDrag s" and "timers s = []"
  shows "\<exists>e s'. setTo s v fc = Some (e, s') \<and> step s' = step s \<and>
           trackRect s' = trackRect s \<and> duringDrag s' \<and> isDragging s' = isDragging s \<and>
           timers s' = [] \<and> delivered s' = delivered s"
  using assms(1)
proof (cases rule: setTo_cases [where v = v and fc = fc])
  case (reject e)
  then show ?thesis using assms by simp
next
  case accept
  then show ?thesis using assms
    by (cases fc) (simp_all add: scheduleCallback_suppressed clearCallbackTimer_none)
next
  case corrective
  then show ?thesis using assms
    by (simp add: scheduleCallback_suppressed clearCallbackTimer_none)
qed

lemma onDragMove_dragging:
  assumes "0 < step s" and "measurable s" and "duringDrag s" and "timers s = []"
  shows "\<exists>s'. onDragMove s x = Some s' \<and> step s' = step s \<and>
           trackRect s' = trackRect s \<and> duringDrag s' \<and> isDragging s' = isDragging s \<and>
           timers s' = [] \<and> delivered s' = delivered s"
proof (cases "isDragging s")
  case None
  then show ?thesis using assms by (simp add: onDragMove_def)
next
  case (Some type)
  show ?thesis
  proof (cases "trackRect s")
    case None
    then show ?thesis using assms Some by (simp add: onDragMove_def)
  next
    case (Some r)
    then have width: "rect_width r \<noteq> 0" using assms(2) by (simp add: measurable_def)
    show ?thesis
    proof (cases "x = 0")
      case True
      then show ?thesis using assms \<open>isDragging s = Some type\<close> Some
        by (simp add: onDragMove_def)
    next
      case False
      obtain c where c: "snapValue s (max 0 (min 1 ((x - rect_left r) / rect_width r))) = Some c"
        using assms(1) by (simp add: snapValue_def js_div_def)
      have move: "onDragMove s x = setValue s type c"
        using False \<open>isDragging s = Some type\<close> Some width c
        by (simp add: onDragMove_def js_div_def)
      show ?thesis
      proof (cases type)
        case From
        then show ?thesis
          using setFrom_dragging [OF assms(1,3,4), of c True] move
          by (auto simp: setValue_def)
      next
        case To
        then show ?thesis
          using setTo_dragging [OF assms(1,3,4), of c True] move
          by (auto simp: setValue_def)
      qed
    qed
  qed
qed

lemma timersElapse_none: "timers s = [] \<Longrightarrow> timersElapse s = s"
  by (simp add: timersElapse_def)

lemma setValue_dragging:
  assumes "0 < step s" and "duringDrag s" and "timers s = []"
  shows "\<exists>s'. setValue s type v = Some s' \<and> step s' = step s \<and>
           trackRect s' = trackRect s \<and> duringDrag s' \<and> isDragging s' = isDragging s \<and>
           timers s' = [] \<and> delivered s' = delivered s"
proof (cases type)
  case From
  then show ?thesis using setFrom_dragging [OF assms, of v True] by (auto simp: setValue_def)
next
  case To
  then show ?thesis using setTo_dragging [OF assms, of v True] by (auto simp: setValue_def)
qed

lemma trackClicked_dragging:
  assumes "0 < step s" and "measurable s" and "duringDrag s" and "timers s = []"
  shows "\<exists>s'. trackClicked s x = Some s' \<and> step s' = step s \<and>
           trackRect s' = trackRect s \<and> duringDrag s' \<and> isDragging s' = isDragging s \<and>
           timers s' = [] \<and> delivered s' = delivered s"
proof (cases "trackRect s")
  case None
  then show ?thesis using assms by (simp add: trackClicked_def)
next
  case (Some r)
  then have width: "rect_width r \<noteq> 0" using assms(2) by (simp add: measurable_def)
  obtain c where c: "snapValue s ((x - rect_left r) / rect_width r) = Some c"
    using assms(1) by (simp add: snapValue_def js_div_def)
  show ?thesis
    using Some width c setFrom_dragging [OF assms(1,3,4), of c True]
      setTo_dragging [OF assms(1,3,4), of c True]
    by (auto simp: trackClicked_def js_div_def)
qed

lemma onKey_dragging:
  assumes "0 < step s" and "duringDrag s" and "timers s = []"
  shows "\<exists>s'. onKey s k type = Some s' \<and> step s' = step s \<and>
           trackRect s' = trackRect s \<and> duringDrag s' \<and> isDragging s' = isDragging s \<and>
           timers s' = [] \<and> delivered s' = delivered s"
proof -
  have "\<exists>s'. map_option scheduleCallback (setValue s type v) = Some s' \<and> step s' = step s \<and>
           trackRect s' = trackRect s \<and> duringDrag s' \<and> isDragging s' = isDragging s \<and>
           timers s' = [] \<and> delivered s' = delivered s" for v
    using setValue_dragging [OF assms, of type v]
    by (auto simp: scheduleCallback_suppressed clearCallbackTimer_none)
  then show ?thesis using assms by (simp add: onKey_def)
qed

text \<open>
  During a drag no operation other than the end of the drag arms a timeout or lets a
  callback be delivered.
\<close>

lemma perform_dragging:
  assumes "keeps_dragging c" and "0 < step s" and "measurable s"
    and "duringDrag s" and "isDragging s \<noteq> None" and "timers s = []"
  shows "\<exists>s'. perform c s = Some s' \<and> step s' = step s \<and> measurable s' \<and>
           duringDrag s' \<and> isDragging s' \<noteq> None \<and> timers s' = [] \<and>
           delivered s' = delivered s"
proof -
  have "\<exists>s'. perform c s = Some s' \<and> step s' = step s \<and> trackRect s' = trackRect s \<and>
           duringDrag s' \<and> isDragging s' \<noteq> None \<and> timers s' = [] \<and>
           delivered s' = delivered s"
  proof (cases c)
    case (SetFrom v fc)
    then show ?thesis using setFrom_dragging [OF assms(2,4,6), of v fc] assms(5) by auto
  next
    case (SetTo v fc)
    then show ?thesis using setTo_dragging [OF assms(2,4,6), of v fc] assms(5) by auto
  next
    case (SetMin v fc)
    then show ?thesis using assms(4,5,6)
      by (simp add: setMin_def Let_def scheduleCallback_suppressed clearCallbackTimer_none)
  next
    case (SetMax v fc)
    then show ?thesis using assms(4,5,6)
      by (simp add: setMax_def Let_def scheduleCallback_suppressed clearCallbackTimer_none)
  next
    case (Update o' fc)
    then show ?thesis using assms(4,5,6)
      by (simp add: update_def Let_def scheduleCallback_suppressed clearCallbackTimer_none)
  next
    case (TrackClick x)
    then show ?thesis using trackClicked_dragging [OF assms(2,3,4,6), of x] assms(5) by auto
  next
    case (KeyDown k type)
    then show ?thesis using onKey_dragging [OF assms(2,4,6), of k type] assms(5) by auto
  next
    case (Gesture e)
    show ?thesis
    proof (cases e)
      case (DragStart type)
      then show ?thesis using Gesture assms(4,6)
        by (simp add: onDragStart_def clearCallbackTimer_none)
    next
      case (DragMove x)
      then show ?thesis
        using Gesture onDragMove_dragging [OF assms(2,3,4,6), of x] assms(5) by auto
    next
      case DragEnd
      then show ?thesis using Gesture assms(1) by simp
    next
      case TimersElapse
      then show ?thesis using Gesture assms(4,5,6) by (simp add: timersElapse_none)
    qed
  qed
  then show ?thesis using assms(3) by (auto simp: measurable_def)
qed

lemma performs_append:
  "performs (cs @ ds) s = (case performs cs s of None \<Rightarrow> None | Some s' \<Rightarrow> performs ds s')"
  by (induction cs arbitrary: s) (auto split: option.splits)

lemma performs_dragging:
  assumes "list_all keeps_dragging cs" and "0 < step s" and "measurable s"
    and "duringDrag s" and "isDragging s \<noteq> None" and "timers s = []"
  shows "\<exists>s'. performs cs s = Some s' \<and> duringDrag s' \<and> isDragging s' \<noteq> None \<and>
           timers s' = [] \<and> delivered s' = delivered s"
  using assms
proof (induction cs arbitrary: s)
  case Nil
  then show ?case by simp
next
  case (Cons c cs)
  from Cons.prems(1) have rest: "list_all keeps_dragging cs" and c: "keeps_dragging c"
    by simp_all
  from perform_dragging [OF c Cons.prems(2-6)] obtain s1 where
    s1: "perform c s = Some s1" "step s1 = step s" "measurable s1" "duringDrag s1"
      "isDragging s1 \<noteq> None" "timers s1 = []" "delivered s1 = delivered s"
    by blast
  from Cons.IH [OF rest _ s1(3,4,5,6)] Cons.prems(2) s1 show ?case by auto
qed

subsection \<open>The passes of the label layout\<close>






section \<open>Properties of the setters over the numbers of JavaScript\<close>

subsection \<open>Comparisons\<close>

lemma js_NaN [simp]:
  "js_lt NaN b = False" "js_lt a NaN = False"
  "js_eq NaN b = False" "js_eq a NaN = False"
  "js_le NaN b = False" "js_le a NaN = False"
  "js_gt NaN b = False" "js_gt a NaN = False"
  "js_ge NaN b = False" "js_ge a NaN = False"
  by (simp_all add: js_lt_def js_eq_def js_le_def js_gt_def js_ge_def split: jsnum.splits)

lemma js_Fin [simp]:
  "js_lt (Fin x) (Fin y) \<longleftrightarrow> x < y"
  "js_eq (Fin x) (Fin y) \<longleftrightarrow> x = y"
  "js_le (Fin x) (Fin y) \<longleftrightarrow> x \<le> y"
  "js_gt (Fin x) (Fin y) \<longleftrightarrow> y < x"
  "js_ge (Fin x) (Fin y) \<longleftrightarrow> y \<le> x"
  by (auto simp: js_lt_def js_eq_def js_le_def js_gt_def js_ge_def)

text \<open>Apart from \<^verbatim>\<open>NaN\<close> the numbers are linearly ordered.\<close>

lemma js_linear:
  "a \<noteq> NaN \<Longrightarrow> b \<noteq> NaN \<Longrightarrow> js_lt a b \<or> js_eq a b \<or> js_lt b a"
  by (cases a; cases b) (auto simp: js_lt_def js_eq_def)

lemma js_eq_iff: "js_eq a b \<longleftrightarrow> a = b \<and> a \<noteq> NaN"
  by (cases a; cases b) (auto simp: js_eq_def)

lemma js_lt_irrefl: "js_lt a b \<Longrightarrow> a \<noteq> b \<and> \<not> js_lt b a \<and> a \<noteq> NaN \<and> b \<noteq> NaN"
  by (cases a; cases b) (auto simp: js_lt_def)

lemma js_lt_trans: "js_lt a b \<Longrightarrow> js_lt b c \<Longrightarrow> js_lt a c"
  by (cases a; cases b; cases c) (auto simp: js_lt_def)

lemma js_le_lt_trans: "js_le a b \<Longrightarrow> js_lt b c \<Longrightarrow> js_lt a c"
  by (auto simp: js_le_def js_eq_iff intro: js_lt_trans)

lemma js_lt_le_trans: "js_lt a b \<Longrightarrow> js_le b c \<Longrightarrow> js_lt a c"
  by (auto simp: js_le_def js_eq_iff intro: js_lt_trans)

lemma js_not_lt: "a \<noteq> NaN \<Longrightarrow> b \<noteq> NaN \<Longrightarrow> \<not> js_lt a b \<longleftrightarrow> js_le b a"
  using js_linear [of a b] js_lt_irrefl [of a b] js_lt_irrefl [of b a]
  by (auto simp: js_le_def js_eq_iff)

lemma js_not_le: "a \<noteq> NaN \<Longrightarrow> b \<noteq> NaN \<Longrightarrow> \<not> js_le a b \<longleftrightarrow> js_lt b a"
  using js_not_lt [of b a] by auto

lemma ordered_js_numbers:
  "ordered_js s \<Longrightarrow>
     minValue s \<noteq> NaN \<and> maxValue s \<noteq> NaN \<and> fromValue s \<noteq> NaN \<and> toValue s \<noteq> NaN"
  by (auto simp: ordered_js_def dest: js_lt_irrefl)

subsection \<open>The recursion of the two setters\<close>


text \<open>
  A self-call whose argument is within the bounds and not below \<open>to\<close> repeats itself
  with the same argument in the same state: it does not return.
\<close>

lemma setFrom_js_repeats:
  assumes "\<not> js_lt w (minValue s)" and "\<not> js_gt w (maxValue s)" and "js_ge w (toValue s)"
    and "js_sub rnd (toValue s) (step s) = w"
  shows "setFrom_js rnd before s w fc = None"
proof (cases "setFrom_js rnd before s w fc")
  case None
  then show ?thesis .
next
  case (Some y)
  have "\<not> (rnd = rnd \<and> s = s \<and> w = w)"
  proof (rule setFrom_js.raw_induct
      [where P = "\<lambda>r b s' v f y. \<not> (r = rnd \<and> s' = s \<and> v = w)", OF _ Some])
    fix f r b s' v fc' y'
    assume IH: "\<And>r b s' v fc y. f r b s' v fc = Some y \<Longrightarrow> \<not> (r = rnd \<and> s' = s \<and> v = w)"
      and body: "(if js_lt v (minValue s') \<or> js_gt v (maxValue s') then Some (OutOfRange, s')
        else if js_ge v (toValue s') then
          f r b s' (js_sub r (toValue s') (step s')) True \<bind> (\<lambda>r. Some (OrderViolation, snd r))
        else if js_eq v (toValue s') then Some (NoChange, s')
        else ask (beforeFromChange s') b v (toValue s') s' \<bind>
          (\<lambda>a. if \<not> fst a then Some (Vetoed, snd a)
                else let s1 = (snd a)\<lparr>fromValue := v,
                          fromThumb := (fromThumb (snd a))\<lparr>aria_valuenow := Some v\<rparr>\<rparr>
                     in Some (Accepted, if fc' then scheduleCallback s1 else s1))) = Some y'"
    show "\<not> (r = rnd \<and> s' = s \<and> v = w)"
    proof
      assume eq: "r = rnd \<and> s' = s \<and> v = w"
      with body assms obtain z where "f rnd b s w True = Some z"
        by (auto split: bind_splits)
      with IH show False by blast
    qed
  qed
  then show ?thesis by simp
qed

lemma setTo_js_repeats:
  assumes "\<not> js_lt w (minValue s)" and "\<not> js_gt w (maxValue s)" and "js_le w (fromValue s)"
    and "js_add rnd (fromValue s) (step s) = w"
  shows "setTo_js rnd before s w fc = None"
proof (cases "setTo_js rnd before s w fc")
  case None
  then show ?thesis .
next
  case (Some y)
  have "\<not> (rnd = rnd \<and> s = s \<and> w = w)"
  proof (rule setTo_js.raw_induct
      [where P = "\<lambda>r b s' v f y. \<not> (r = rnd \<and> s' = s \<and> v = w)", OF _ Some])
    fix f r b s' v fc' y'
    assume IH: "\<And>r b s' v fc y. f r b s' v fc = Some y \<Longrightarrow> \<not> (r = rnd \<and> s' = s \<and> v = w)"
      and body: "(if js_lt v (minValue s') \<or> js_gt v (maxValue s') then Some (OutOfRange, s')
        else if js_le v (fromValue s') then
          f r b s' (js_add r (fromValue s') (step s')) True \<bind> (\<lambda>r. Some (OrderViolation, snd r))
        else if js_eq v (toValue s') then Some (NoChange, s')
        else ask (beforeToChange s') b (fromValue s') v s' \<bind>
          (\<lambda>a. if \<not> fst a then Some (Vetoed, snd a)
                else let s1 = (snd a)\<lparr>toValue := v,
                          toThumb := (toThumb (snd a))\<lparr>aria_valuenow := Some v\<rparr>\<rparr>
                     in Some (Accepted, if fc' then scheduleCallback s1 else s1))) = Some y'"
    show "\<not> (r = rnd \<and> s' = s \<and> v = w)"
    proof
      assume eq: "r = rnd \<and> s' = s \<and> v = w"
      with body assms obtain z where "f rnd b s w True = Some z"
        by (auto split: bind_splits)
      with IH show False by blast
    qed
  qed
  then show ?thesis by simp
qed

lemma js_eq_sym: "js_eq a b \<longleftrightarrow> js_eq b a"
  by (auto simp: js_eq_iff)

lemma js_eq_ge: "js_eq a b \<Longrightarrow> js_ge a b \<and> js_le a b"
  by (auto simp: js_ge_def js_le_def js_eq_iff)

lemma scheduleCallback_js_values [simp]:
  "minValue (scheduleCallback s) = minValue s"
  "maxValue (scheduleCallback s) = maxValue s"
  "fromValue (scheduleCallback s) = fromValue s"
  "toValue (scheduleCallback s) = toValue s"
  by (simp_all add: scheduleCallback_def clearCallbackTimer_def clearTimeout_def setTimeout_def
      Let_def split: option.splits)

text \<open>A call with a value within the bounds and below \<open>to\<close> asks the guard and obeys it.\<close>

lemma setFrom_js_asks:
  assumes "\<not> js_lt w (minValue s)" and "\<not> js_gt w (maxValue s)" and "\<not> js_ge w (toValue s)"
  shows "setFrom_js rnd before s w fc =
     ask (beforeFromChange s) before w (toValue s) s \<bind>
       (\<lambda>a. if \<not> fst a then Some (Vetoed, snd a)
             else Some (Accepted, (if fc then scheduleCallback else id)
                    ((snd a)\<lparr>fromValue := w,
                              fromThumb := (fromThumb (snd a))\<lparr>aria_valuenow := Some w\<rparr>\<rparr>)))"
proof -
  have "\<not> js_eq w (toValue s)" using assms(3) js_eq_ge by blast
  then show ?thesis
    using assms by (subst setFrom_js.simps) (simp add: Let_def cong: if_cong)
qed

lemma setTo_js_asks:
  assumes "\<not> js_lt w (minValue s)" and "\<not> js_gt w (maxValue s)" and "\<not> js_le w (fromValue s)"
    and "\<not> js_eq w (toValue s)"
  shows "setTo_js rnd before s w fc =
     ask (beforeToChange s) before (fromValue s) w s \<bind>
       (\<lambda>a. if \<not> fst a then Some (Vetoed, snd a)
             else Some (Accepted, (if fc then scheduleCallback else id)
                    ((snd a)\<lparr>toValue := w,
                              toThumb := (toThumb (snd a))\<lparr>aria_valuenow := Some w\<rparr>\<rparr>)))"
  using assms by (subst setTo_js.simps) (simp add: Let_def cong: if_cong)

lemma setFrom_js_corrects:
  assumes "\<not> js_lt v (minValue s)" and "\<not> js_gt v (maxValue s)" and "js_ge v (toValue s)"
  shows "setFrom_js rnd before s v fc =
     setFrom_js rnd before s (js_sub rnd (toValue s) (step s)) True
       \<bind> (\<lambda>r. Some (OrderViolation, snd r))"
  using assms by (subst setFrom_js.simps) simp

lemma setTo_js_corrects:
  assumes "\<not> js_lt v (minValue s)" and "\<not> js_gt v (maxValue s)" and "js_le v (fromValue s)"
  shows "setTo_js rnd before s v fc =
     setTo_js rnd before s (js_add rnd (fromValue s) (step s)) True
       \<bind> (\<lambda>r. Some (OrderViolation, snd r))"
  using assms by (subst setTo_js.simps) simp

lemma js_le_not: "js_le a b \<Longrightarrow> \<not> js_lt b a \<and> \<not> js_gt a b"
  by (auto simp: js_le_def js_gt_def js_eq_iff dest: js_lt_irrefl)

subsection \<open>What the three throwing setters reject\<close>

text \<open>
  For numbers other than \<^verbatim>\<open>NaN\<close> the tests of \<open>setMin\<close>, \<open>setMax\<close> and
  \<open>update\<close> reject every value that breaks an ordering constraint, and the state stays
  as it was.
\<close>

lemma setMin_js_rejects:
  assumes "v \<noteq> NaN" and "maxValue s \<noteq> NaN" and "fromValue s \<noteq> NaN"
    and "\<not> js_lt v (maxValue s) \<or> \<not> js_le v (fromValue s)"
  shows "setMin_js s v fc = (Inl RangeError, s)"
  using assms js_not_lt [of v "maxValue s"] js_not_le [of v "fromValue s"]
  by (auto simp: setMin_js_def js_ge_def js_gt_def)

lemma setMax_js_rejects:
  assumes "v \<noteq> NaN" and "minValue s \<noteq> NaN" and "toValue s \<noteq> NaN"
    and "\<not> js_lt (minValue s) v \<or> \<not> js_le (toValue s) v"
  shows "setMax_js s v fc = (Inl RangeError, s)"
  using assms js_not_lt [of "minValue s" v] js_not_le [of "toValue s" v]
  by (auto simp: setMax_js_def)

lemma update_js_rejects:
  assumes "next_min (merged s o') \<noteq> NaN" and "next_max (merged s o') \<noteq> NaN"
    and "next_from (merged s o') \<noteq> NaN" and "next_to (merged s o') \<noteq> NaN"
    and "\<not> next_ordered_js (merged s o')"
  shows "update_js s o' fc = (Inl RangeError, s)"
proof -
  let ?n = "merged s o'"
  from assms(5) consider "\<not> js_lt (next_min ?n) (next_max ?n)"
    | "\<not> js_le (next_min ?n) (next_from ?n)"
    | "\<not> js_lt (next_from ?n) (next_to ?n)"
    | "\<not> js_le (next_to ?n) (next_max ?n)"
    by (auto simp: next_ordered_js_def)
  then show ?thesis
  proof cases
    case 1
    then have "js_ge (next_min ?n) (next_max ?n)"
      using assms(1,2) js_not_lt by (auto simp: js_ge_def)
    then show ?thesis by (simp add: update_js_def Let_def)
  next
    case 2
    then have "js_lt (next_from ?n) (next_min ?n)"
      using assms(1,3) js_not_le by auto
    then show ?thesis by (simp add: update_js_def Let_def)
  next
    case 3
    then have "js_ge (next_from ?n) (next_to ?n)"
      using assms(3,4) js_not_lt by (auto simp: js_ge_def)
    then show ?thesis by (simp add: update_js_def Let_def)
  next
    case 4
    then have "js_gt (next_to ?n) (next_max ?n)"
      using assms(2,4) js_not_le by (auto simp: js_gt_def)
    then show ?thesis by (simp add: update_js_def Let_def)
  qed
qed


section \<open>The finite model inside the model over the numbers of JavaScript\<close>

text \<open>
  On finite numbers, with a rounding that returns what it is given and guards that only
  answer, the setters over the numbers of JavaScript do what the setters of the finite
  model do, also where those do not return.
\<close>

lemma as_js_scheduleCallback: "as_js (scheduleCallback s) = scheduleCallback (as_js s)"
  by (simp add: as_js_def scheduleCallback_def clearCallbackTimer_def clearTimeout_def
      setTimeout_def Let_def split: option.splits)

lemma setMin_finite:
  "setMin_js (as_js s) (Fin v) fc = (fst (setMin s v fc), as_js (snd (setMin s v fc)))"
proof (cases "maxValue s \<le> v \<or> fromValue s < v")
  case True
  then show ?thesis by (auto simp: setMin_js_def setMin_def as_js_def)
next
  case False
  then show ?thesis
    by (simp add: setMin_js_def setMin_def Let_def as_js_def scheduleCallback_def
        clearCallbackTimer_def clearTimeout_def setTimeout_def split: option.splits)
qed

lemma setMax_finite:
  "setMax_js (as_js s) (Fin v) fc = (fst (setMax s v fc), as_js (snd (setMax s v fc)))"
proof (cases "v \<le> minValue s \<or> v < toValue s")
  case True
  then show ?thesis by (auto simp: setMax_js_def setMax_def as_js_def)
next
  case False
  then show ?thesis
    by (simp add: setMax_js_def setMax_def Let_def as_js_def scheduleCallback_def
        clearCallbackTimer_def clearTimeout_def setTimeout_def split: option.splits)
qed

lemma update_finite:
  "update_js (as_js s) (as_js_options o') fc
     = (fst (update s o' fc), as_js (snd (update s o' fc)))"
proof -
  have m: "merged (as_js s) (as_js_options o') =
      \<lparr>next_min = Fin (next_min (merged s o')), next_max = Fin (next_max (merged s o')),
       next_from = Fin (next_from (merged s o')), next_to = Fin (next_to (merged s o'))\<rparr>"
    by (simp add: merged_def as_js_def as_js_options_def split: option.splits)
  show ?thesis
    unfolding update_js_def update_def m
    by (simp add: Let_def as_js_def scheduleCallback_def clearCallbackTimer_def
        clearTimeout_def setTimeout_def split: option.splits)
qed

lemma setFrom_repeats:
  assumes "\<not> w < minValue s" and "\<not> w > maxValue s" and "toValue s \<le> w"
    and "toValue s - step s = w"
  shows "setFrom s w fc = None"
proof (cases "setFrom s w fc")
  case None
  then show ?thesis .
next
  case (Some y)
  have "\<not> (s = s \<and> w = w)"
  proof (rule setFrom.raw_induct [where P = "\<lambda>s' v f y. \<not> (s' = s \<and> v = w)", OF _ Some])
    fix f s' v fc' y'
    assume IH: "\<And>s' v fc y. f s' v fc = Some y \<Longrightarrow> \<not> (s' = s \<and> v = w)"
      and body: "(if v < minValue s' \<or> maxValue s' < v then Some (OutOfRange, s')
        else if toValue s' \<le> v then
          f s' (toValue s' - step s') True \<bind> (\<lambda>r. Some (OrderViolation, snd r))
        else if v = toValue s' then Some (NoChange, s')
        else if vetoes (beforeFromChange s') v (toValue s') then Some (Vetoed, s')
        else let s1 = s'\<lparr>fromValue := v,
                          fromThumb := (fromThumb s')\<lparr>aria_valuenow := Some v\<rparr>\<rparr>
             in Some (Accepted, if fc' then scheduleCallback s1 else s1)) = Some y'"
    show "\<not> (s' = s \<and> v = w)"
    proof
      assume eq: "s' = s \<and> v = w"
      with body assms obtain z where "f s w True = Some z"
        by (auto split: bind_splits)
      with IH show False by blast
    qed
  qed
  then show ?thesis by simp
qed

lemma setTo_repeats:
  assumes "\<not> w < minValue s" and "\<not> w > maxValue s" and "w \<le> fromValue s"
    and "fromValue s + step s = w"
  shows "setTo s w fc = None"
proof (cases "setTo s w fc")
  case None
  then show ?thesis .
next
  case (Some y)
  have "\<not> (s = s \<and> w = w)"
  proof (rule setTo.raw_induct [where P = "\<lambda>s' v f y. \<not> (s' = s \<and> v = w)", OF _ Some])
    fix f s' v fc' y'
    assume IH: "\<And>s' v fc y. f s' v fc = Some y \<Longrightarrow> \<not> (s' = s \<and> v = w)"
      and body: "(if v < minValue s' \<or> maxValue s' < v then Some (OutOfRange, s')
        else if v \<le> fromValue s' then
          f s' (fromValue s' + step s') True \<bind> (\<lambda>r. Some (OrderViolation, snd r))
        else if v = toValue s' then Some (NoChange, s')
        else if vetoes (beforeToChange s') (fromValue s') v then Some (Vetoed, s')
        else let s1 = s'\<lparr>toValue := v,
                          toThumb := (toThumb s')\<lparr>aria_valuenow := Some v\<rparr>\<rparr>
             in Some (Accepted, if fc' then scheduleCallback s1 else s1)) = Some y'"
    show "\<not> (s' = s \<and> v = w)"
    proof
      assume eq: "s' = s \<and> v = w"
      with body assms obtain z where "f s w True = Some z"
        by (auto split: bind_splits)
      with IH show False by blast
    qed
  qed
  then show ?thesis by simp
qed

lemma setFrom_finite_direct:
  assumes "\<And>g. beforeFromChange s = Some g \<Longrightarrow> before = as_guard g"
    and "v < minValue s \<or> v > maxValue s \<or> v < toValue s"
  shows "setFrom_js Fin before (as_js s) (Fin v) fc
           = map_option (\<lambda>r. (fst r, as_js (snd r))) (setFrom s v fc)"
proof (cases "v < minValue s \<or> v > maxValue s")
  case True
  then have "setFrom s v fc = Some (OutOfRange, s)"
    "setFrom_js Fin before (as_js s) (Fin v) fc = Some (OutOfRange, as_js s)"
    by (subst setFrom.simps, simp, subst setFrom_js.simps, simp add: as_js_def)
  then show ?thesis by simp
next
  case False
  with assms(2) have below: "v < toValue s" by blast
  have asked: "ask (beforeFromChange (as_js s)) before (Fin v) (toValue (as_js s)) (as_js s)
      = Some (\<not> vetoes (beforeFromChange s) v (toValue s), as_js s)"
    using assms(1)
    by (cases "beforeFromChange s") (simp_all add: ask_def as_js_def as_guard_def vetoes_def)
  have fin: "setFrom s v fc =
      (if vetoes (beforeFromChange s) v (toValue s) then Some (Vetoed, s)
       else Some (Accepted, (if fc then scheduleCallback else id)
              (s\<lparr>fromValue := v, fromThumb := (fromThumb s)\<lparr>aria_valuenow := Some v\<rparr>\<rparr>)))"
    using False below by (subst setFrom.simps) (simp add: Let_def)
  have range: "\<not> js_lt (Fin v) (minValue (as_js s))" "\<not> js_gt (Fin v) (maxValue (as_js s))"
    "\<not> js_ge (Fin v) (toValue (as_js s))"
    using False below by (simp_all add: as_js_def)
  have written: "as_js (s\<lparr>fromValue := v, fromThumb := (fromThumb s)\<lparr>aria_valuenow := Some v\<rparr>\<rparr>)
      = (as_js s)\<lparr>fromValue := Fin v,
          fromThumb := (fromThumb (as_js s))\<lparr>aria_valuenow := Some (Fin v)\<rparr>\<rparr>"
    by (simp add: as_js_def)
  show ?thesis
    unfolding setFrom_js_asks [OF range] asked fin
    by (simp add: as_js_scheduleCallback written)
qed

lemma setFrom_finite:
  assumes "\<And>g. beforeFromChange s = Some g \<Longrightarrow> before = as_guard g"
  shows "setFrom_js Fin before (as_js s) (Fin v) fc
           = map_option (\<lambda>r. (fst r, as_js (snd r))) (setFrom s v fc)"
proof (cases "v < minValue s \<or> v > maxValue s \<or> v < toValue s")
  case True
  show ?thesis by (rule setFrom_finite_direct) (use assms True in blast)+
next
  case False
  let ?w = "toValue s - step s"
  have w: "js_sub Fin (toValue (as_js s)) (step (as_js s)) = Fin ?w"
    by (simp add: js_sub_def as_js_def)
  have outer_js: "setFrom_js Fin before (as_js s) (Fin v) fc =
      setFrom_js Fin before (as_js s) (Fin ?w) True \<bind> (\<lambda>r. Some (OrderViolation, snd r))"
    using False w by (subst setFrom_js.simps) (simp add: as_js_def)
  have outer: "setFrom s v fc = setFrom s ?w True \<bind> (\<lambda>r. Some (OrderViolation, snd r))"
    using False by (subst setFrom.simps) simp
  have inner: "setFrom_js Fin before (as_js s) (Fin ?w) True
      = map_option (\<lambda>r. (fst r, as_js (snd r))) (setFrom s ?w True)"
  proof (cases "?w < minValue s \<or> ?w > maxValue s \<or> ?w < toValue s")
    case True
    show ?thesis by (rule setFrom_finite_direct) (use assms True in blast)+
  next
    case False
    then have "setFrom s ?w True = None"
      by (intro setFrom_repeats) auto
    moreover have "setFrom_js Fin before (as_js s) (Fin ?w) True = None"
      using False w by (intro setFrom_js_repeats) (simp_all add: as_js_def)
    ultimately show ?thesis by simp
  qed
  show ?thesis
    unfolding outer_js outer inner by (cases "setFrom s ?w True") simp_all
qed

lemma setTo_finite_direct:
  assumes "\<And>g. beforeToChange s = Some g \<Longrightarrow> before = as_guard g"
    and "v < minValue s \<or> v > maxValue s \<or> fromValue s < v"
  shows "setTo_js Fin before (as_js s) (Fin v) fc
           = map_option (\<lambda>r. (fst r, as_js (snd r))) (setTo s v fc)"
proof (cases "v < minValue s \<or> v > maxValue s")
  case True
  then have "setTo s v fc = Some (OutOfRange, s)"
    "setTo_js Fin before (as_js s) (Fin v) fc = Some (OutOfRange, as_js s)"
    by (subst setTo.simps, simp, subst setTo_js.simps, simp add: as_js_def)
  then show ?thesis by simp
next
  case False
  with assms(2) have above: "fromValue s < v" by blast
  show ?thesis
  proof (cases "v = toValue s")
    case True
    then have "setTo s v fc = Some (NoChange, s)"
      "setTo_js Fin before (as_js s) (Fin v) fc = Some (NoChange, as_js s)"
      using False above
      by (subst setTo.simps, simp, subst setTo_js.simps, simp add: as_js_def)
    then show ?thesis by simp
  next
    case differs: False
    have asked: "ask (beforeToChange (as_js s)) before (fromValue (as_js s)) (Fin v) (as_js s)
        = Some (\<not> vetoes (beforeToChange s) (fromValue s) v, as_js s)"
      using assms(1)
      by (cases "beforeToChange s") (simp_all add: ask_def as_js_def as_guard_def vetoes_def)
    have fin: "setTo s v fc =
        (if vetoes (beforeToChange s) (fromValue s) v then Some (Vetoed, s)
         else Some (Accepted, (if fc then scheduleCallback else id)
                (s\<lparr>toValue := v, toThumb := (toThumb s)\<lparr>aria_valuenow := Some v\<rparr>\<rparr>)))"
      using False above differs by (subst setTo.simps) (simp add: Let_def)
    have range: "\<not> js_lt (Fin v) (minValue (as_js s))" "\<not> js_gt (Fin v) (maxValue (as_js s))"
      "\<not> js_le (Fin v) (fromValue (as_js s))" "\<not> js_eq (Fin v) (toValue (as_js s))"
      using False above differs by (simp_all add: as_js_def)
    have written: "as_js (s\<lparr>toValue := v, toThumb := (toThumb s)\<lparr>aria_valuenow := Some v\<rparr>\<rparr>)
        = (as_js s)\<lparr>toValue := Fin v,
            toThumb := (toThumb (as_js s))\<lparr>aria_valuenow := Some (Fin v)\<rparr>\<rparr>"
      by (simp add: as_js_def)
    show ?thesis
      unfolding setTo_js_asks [OF range] asked fin
      by (simp add: as_js_scheduleCallback written)
  qed
qed

lemma setTo_finite:
  assumes "\<And>g. beforeToChange s = Some g \<Longrightarrow> before = as_guard g"
  shows "setTo_js Fin before (as_js s) (Fin v) fc
           = map_option (\<lambda>r. (fst r, as_js (snd r))) (setTo s v fc)"
proof (cases "v < minValue s \<or> v > maxValue s \<or> fromValue s < v")
  case True
  show ?thesis by (rule setTo_finite_direct) (use assms True in blast)+
next
  case False
  let ?w = "fromValue s + step s"
  have w: "js_add Fin (fromValue (as_js s)) (step (as_js s)) = Fin ?w"
    by (simp add: js_add_def as_js_def)
  have outer_js: "setTo_js Fin before (as_js s) (Fin v) fc =
      setTo_js Fin before (as_js s) (Fin ?w) True \<bind> (\<lambda>r. Some (OrderViolation, snd r))"
    using False w by (subst setTo_js.simps) (simp add: as_js_def)
  have outer: "setTo s v fc = setTo s ?w True \<bind> (\<lambda>r. Some (OrderViolation, snd r))"
    using False by (subst setTo.simps) simp
  have inner: "setTo_js Fin before (as_js s) (Fin ?w) True
      = map_option (\<lambda>r. (fst r, as_js (snd r))) (setTo s ?w True)"
  proof (cases "?w < minValue s \<or> ?w > maxValue s \<or> fromValue s < ?w")
    case True
    show ?thesis by (rule setTo_finite_direct) (use assms True in blast)+
  next
    case False
    then have "setTo s ?w True = None"
      by (intro setTo_repeats) auto
    moreover have "setTo_js Fin before (as_js s) (Fin ?w) True = None"
      using False w by (intro setTo_js_repeats) (simp_all add: as_js_def)
    ultimately show ?thesis by simp
  qed
  show ?thesis
    unfolding outer_js outer inner by (cases "setTo s ?w True") simp_all
qed
section \<open>The claims\<close>

text \<open>
  C1. The claim is that a widget satisfies the ordering invariant from its binding on.
  The operations keep the invariant (\<open>performs_ordered\<close>) and \<open>create\<close> establishes it
  (\<open>create_ordered\<close>), but the constructor does not: bound to markup with
  \<^verbatim>\<open>aria-valuemin\<close> 50, \<^verbatim>\<open>aria-valuemax\<close> 100 and current values 10 and 20 it
  only tests \<open>from < to\<close> and returns a widget whose \<open>from\<close> is below its minimum.
  \<open>create\<close> rejects the same numbers with \<open>RangeError\<close>.
\<close>

theorem attach_unordered:
  "constructor (page (served (cfg 50 100 5 10 20))) Map.empty 7 (cfg 50 100 5 10 20)
     = (Inr (widget 50 100 5 10 20), [1 \<mapsto> 7]) \<and>
   \<not> ordered (widget 50 100 5 10 20) \<and>
   fst (create (page (served (cfg 50 100 5 10 20))) Map.empty 7 1
         \<lparr>rect_left = 0, rect_width = 100\<rparr> (cfg 50 100 5 10 20)) = Inl RangeError"
  by (simp add: constructor_def create_def page_def served_def generated_def cfg_def
      getElement_def attr_or_def or_else_def widget_def ordered_def)

theorem attach_unordered_witness:
  "getElement (page (served (cfg 50 100 5 10 20))) (selector (cfg 50 100 5 10 20)) = Inr 0 \<and>
   q_fromLabel (served (cfg 50 100 5 10 20)) = Some True \<and>
   q_toLabel (served (cfg 50 100 5 10 20)) = Some True \<and>
   q_minLabel (served (cfg 50 100 5 10 20)) \<and> q_maxLabel (served (cfg 50 100 5 10 20)) \<and>
   q_rangeBar (served (cfg 50 100 5 10 20)) \<and>
   fst (constructor (page (served (cfg 50 100 5 10 20))) Map.empty 7 (cfg 50 100 5 10 20))
     = Inr (widget 50 100 5 10 20) \<and>
   fromValue (widget 50 100 5 10 20) < minValue (widget 50 100 5 10 20)"
  using attach_unordered
  by (simp add: page_def served_def generated_def cfg_def getElement_def widget_def)

text \<open>
  C2, as stated: for every state and every \<open>v\<close> within the bounds, \<open>setFrom(v)\<close>
  with \<open>v \<ge> to\<close> sets \<open>from\<close> to \<open>to - step\<close>. It does not when \<open>to - step\<close> is
  below the minimum: with bounds 0 and 100, \<open>from\<close> 1, \<open>to\<close> 3 and step 5, the inner call
  \<open>setFrom(-2)\<close> is rejected and \<open>from\<close> stays 1.
\<close>

theorem corrective_write_counterexample:
  "minValue (widget 0 100 5 1 3) \<le> 4 \<and> 4 \<le> maxValue (widget 0 100 5 1 3) \<and>
   toValue (widget 0 100 5 1 3) \<le> 4 \<and>
   setFrom (widget 0 100 5 1 3) 4 True = Some (OrderViolation, widget 0 100 5 1 3) \<and>
   fromValue (widget 0 100 5 1 3) \<noteq> toValue (widget 0 100 5 1 3) - step (widget 0 100 5 1 3)"
  by (simp add: setFrom.simps widget_def)

text \<open>
  C2, amended. Over the numbers of JavaScript, with any rounding of the computed value and
  any guard, also one that calls the setters itself: for \<open>v\<close> within the bounds,
  \<open>setFrom(v)\<close> with \<open>v \<ge> to\<close> calls \<open>setFrom(w)\<close> for the computed
  \<open>w = to - step\<close>, and what it returns, if that call returns, is \<open>false\<close> by the
  ordering return. If \<open>w\<close> is outside the bounds, nothing has changed. If \<open>w\<close> is within
  the bounds and not below \<open>to\<close>, as with a step of zero or a step lost in rounding, the
  inner call repeats itself and the call does not return. Otherwise the guard of \<open>from\<close>
  is asked about \<open>(w, to)\<close>: if it returns true, \<open>from\<close> is \<open>w\<close> after the call; if it
  returns false, the widget is as the guard left it. Symmetrically \<open>setTo(v)\<close> with
  \<open>v \<le> from\<close> calls \<open>setTo(w)\<close> for \<open>w = from + step\<close>, where moreover a \<open>w\<close> that
  is the current \<open>to\<close> changes nothing.
\<close>

theorem corrective_write:
  assumes "js_le (minValue s) v" and "js_le v (maxValue s)"
  shows
    "(js_ge v (toValue s) \<longrightarrow>
        \<not> returns_this OrderViolation \<and>
        (js_lt (js_sub rnd (toValue s) (step s)) (minValue s) \<or>
         js_gt (js_sub rnd (toValue s) (step s)) (maxValue s) \<longrightarrow>
           setFrom_js rnd before s v fc = Some (OrderViolation, s)) \<and>
        (\<not> js_lt (js_sub rnd (toValue s) (step s)) (minValue s) \<and>
         \<not> js_gt (js_sub rnd (toValue s) (step s)) (maxValue s) \<and>
         js_ge (js_sub rnd (toValue s) (step s)) (toValue s) \<longrightarrow>
           setFrom_js rnd before s v fc = None) \<and>
        (\<not> js_lt (js_sub rnd (toValue s) (step s)) (minValue s) \<and>
         \<not> js_gt (js_sub rnd (toValue s) (step s)) (maxValue s) \<and>
         \<not> js_ge (js_sub rnd (toValue s) (step s)) (toValue s) \<longrightarrow>
           (\<forall>ok s1. ask (beforeFromChange s) before (js_sub rnd (toValue s) (step s))
                       (toValue s) s = Some (ok, s1) \<longrightarrow>
              (\<exists>s'. setFrom_js rnd before s v fc = Some (OrderViolation, s') \<and>
                    (ok \<longrightarrow> fromValue s' = js_sub rnd (toValue s) (step s)) \<and>
                    (\<not> ok \<longrightarrow> s' = s1))))) \<and>
     (js_le v (fromValue s) \<longrightarrow>
        (js_lt (js_add rnd (fromValue s) (step s)) (minValue s) \<or>
         js_gt (js_add rnd (fromValue s) (step s)) (maxValue s) \<longrightarrow>
           setTo_js rnd before s v fc = Some (OrderViolation, s)) \<and>
        (\<not> js_lt (js_add rnd (fromValue s) (step s)) (minValue s) \<and>
         \<not> js_gt (js_add rnd (fromValue s) (step s)) (maxValue s) \<and>
         js_le (js_add rnd (fromValue s) (step s)) (fromValue s) \<longrightarrow>
           setTo_js rnd before s v fc = None) \<and>
        (\<not> js_lt (js_add rnd (fromValue s) (step s)) (minValue s) \<and>
         \<not> js_gt (js_add rnd (fromValue s) (step s)) (maxValue s) \<and>
         \<not> js_le (js_add rnd (fromValue s) (step s)) (fromValue s) \<and>
         js_eq (js_add rnd (fromValue s) (step s)) (toValue s) \<longrightarrow>
           setTo_js rnd before s v fc = Some (OrderViolation, s)) \<and>
        (\<not> js_lt (js_add rnd (fromValue s) (step s)) (minValue s) \<and>
         \<not> js_gt (js_add rnd (fromValue s) (step s)) (maxValue s) \<and>
         \<not> js_le (js_add rnd (fromValue s) (step s)) (fromValue s) \<and>
         \<not> js_eq (js_add rnd (fromValue s) (step s)) (toValue s) \<longrightarrow>
           (\<forall>ok s1. ask (beforeToChange s) before (fromValue s)
                       (js_add rnd (fromValue s) (step s)) s = Some (ok, s1) \<longrightarrow>
              (\<exists>s'. setTo_js rnd before s v fc = Some (OrderViolation, s') \<and>
                    (ok \<longrightarrow> toValue s' = js_add rnd (fromValue s) (step s)) \<and>
                    (\<not> ok \<longrightarrow> s' = s1)))))"
proof (intro conjI impI)
  show "\<not> returns_this OrderViolation" by (simp add: returns_this_def)
next
  let ?w = "js_sub rnd (toValue s) (step s)"
  assume hi: "js_ge v (toValue s)"
  note outer = setFrom_js_corrects [OF js_le_not [OF assms(1), THEN conjunct1]
      js_le_not [OF assms(2), THEN conjunct2] hi, of rnd before fc]
  {
    assume "js_lt ?w (minValue s) \<or> js_gt ?w (maxValue s)"
    then have "setFrom_js rnd before s ?w True = Some (OutOfRange, s)"
      by (subst setFrom_js.simps) simp
    then show "setFrom_js rnd before s v fc = Some (OrderViolation, s)"
      by (simp add: outer)
  next
    assume "\<not> js_lt ?w (minValue s) \<and> \<not> js_gt ?w (maxValue s) \<and> js_ge ?w (toValue s)"
    then have "setFrom_js rnd before s ?w True = None"
      by (intro setFrom_js_repeats) simp_all
    then show "setFrom_js rnd before s v fc = None"
      by (simp add: outer)
  next
    assume w: "\<not> js_lt ?w (minValue s) \<and> \<not> js_gt ?w (maxValue s) \<and> \<not> js_ge ?w (toValue s)"
    show "\<forall>ok s1. ask (beforeFromChange s) before ?w (toValue s) s = Some (ok, s1) \<longrightarrow>
              (\<exists>s'. setFrom_js rnd before s v fc = Some (OrderViolation, s') \<and>
                    (ok \<longrightarrow> fromValue s' = ?w) \<and> (\<not> ok \<longrightarrow> s' = s1))"
      using w by (auto simp: outer setFrom_js_asks)
  }
next
  let ?w = "js_add rnd (fromValue s) (step s)"
  assume lo: "js_le v (fromValue s)"
  note outer = setTo_js_corrects [OF js_le_not [OF assms(1), THEN conjunct1]
      js_le_not [OF assms(2), THEN conjunct2] lo, of rnd before fc]
  {
    assume "js_lt ?w (minValue s) \<or> js_gt ?w (maxValue s)"
    then have "setTo_js rnd before s ?w True = Some (OutOfRange, s)"
      by (subst setTo_js.simps) simp
    then show "setTo_js rnd before s v fc = Some (OrderViolation, s)"
      by (simp add: outer)
  next
    assume "\<not> js_lt ?w (minValue s) \<and> \<not> js_gt ?w (maxValue s) \<and> js_le ?w (fromValue s)"
    then have "setTo_js rnd before s ?w True = None"
      by (intro setTo_js_repeats) simp_all
    then show "setTo_js rnd before s v fc = None"
      by (simp add: outer)
  next
    assume "\<not> js_lt ?w (minValue s) \<and> \<not> js_gt ?w (maxValue s) \<and>
      \<not> js_le ?w (fromValue s) \<and> js_eq ?w (toValue s)"
    then have "setTo_js rnd before s ?w True = Some (NoChange, s)"
      by (subst setTo_js.simps) simp
    then show "setTo_js rnd before s v fc = Some (OrderViolation, s)"
      by (simp add: outer)
  next
    assume w: "\<not> js_lt ?w (minValue s) \<and> \<not> js_gt ?w (maxValue s) \<and>
      \<not> js_le ?w (fromValue s) \<and> \<not> js_eq ?w (toValue s)"
    show "\<forall>ok s1. ask (beforeToChange s) before (fromValue s) ?w s = Some (ok, s1) \<longrightarrow>
              (\<exists>s'. setTo_js rnd before s v fc = Some (OrderViolation, s') \<and>
                    (ok \<longrightarrow> toValue s' = ?w) \<and> (\<not> ok \<longrightarrow> s' = s1))"
      using w by (auto simp: outer setTo_js_asks)
  }
qed

theorem corrective_write_witness:
  "js_le (minValue example3) (Fin 450) \<and> js_le (Fin 450) (maxValue example3) \<and>
   js_ge (Fin 450) (toValue example3) \<and>
   js_sub Fin (toValue example3) (step example3) = Fin 399 \<and>
   map_option fst (ask (beforeFromChange example3) (keep_distance 2) (Fin 399) (toValue example3)
     example3) = Some False \<and>
   map_option fst (setFrom_js Fin (keep_distance 2) example3 (Fin 450) True) = Some OrderViolation \<and>
   map_option (fromValue \<circ> snd) (setFrom_js Fin (keep_distance 2) example3 (Fin 450) True)
     = Some (Fin 300) \<and>
   map_option (fromValue \<circ> snd) (setFrom_js Fin allow example3 (Fin 450) True)
     = Some (Fin 399) \<and>
   setFrom_js Fin allow (example3\<lparr>step := Fin 0\<rparr>) (Fin 450) True = None"
proof -
  have h: "js_le (minValue example3) (Fin 450)" "js_le (Fin 450) (maxValue example3)"
    by (simp_all add: example3_def as_js_def widget_def)
  have inner: "setFrom_js Fin (keep_distance 1) example3 (Fin 300) True
      = Some (Accepted, scheduleCallback (example3\<lparr>fromValue := Fin 300,
          fromThumb := (fromThumb example3)\<lparr>aria_valuenow := Some (Fin 300)\<rparr>\<rparr>))"
    by (subst setFrom_js.simps)
      (simp add: example3_def as_js_def widget_def ask_def js_sub_def)
  have asked: "ask (beforeFromChange example3) (keep_distance 2) (Fin 399) (toValue example3) example3
      = Some (False, scheduleCallback (example3\<lparr>fromValue := Fin 300,
          fromThumb := (fromThumb example3)\<lparr>aria_valuenow := Some (Fin 300)\<rparr>\<rparr>))"
    using inner
    by (simp add: ask_def eval_nat_numeral js_sub_def example3_def as_js_def widget_def)
  have allowed: "ask (beforeFromChange example3) allow (Fin 399) (toValue example3) example3
      = Some (True, example3)"
    by (simp add: ask_def allow_def example3_def)
  have w: "js_sub Fin (toValue example3) (step example3) = Fin 399"
    "js_ge (Fin 450) (toValue example3)"
    "\<not> js_lt (Fin 399) (minValue example3)" "\<not> js_gt (Fin 399) (maxValue example3)"
    "\<not> js_ge (Fin 399) (toValue example3)"
    by (simp_all add: example3_def as_js_def widget_def js_sub_def)
  have guarded: "\<forall>ok s1. ask (beforeFromChange example3) (keep_distance 2) (Fin 399)
        (toValue example3) example3 = Some (ok, s1) \<longrightarrow>
      (\<exists>s'. setFrom_js Fin (keep_distance 2) example3 (Fin 450) True = Some (OrderViolation, s') \<and>
            (ok \<longrightarrow> fromValue s' = Fin 399) \<and> (\<not> ok \<longrightarrow> s' = s1))"
    using corrective_write [OF h, of Fin "keep_distance 2" True] w(2,3,4,5)
    unfolding w(1) by blast
  have free: "\<forall>ok s1. ask (beforeFromChange example3) allow (Fin 399)
        (toValue example3) example3 = Some (ok, s1) \<longrightarrow>
      (\<exists>s'. setFrom_js Fin allow example3 (Fin 450) True = Some (OrderViolation, s') \<and>
            (ok \<longrightarrow> fromValue s' = Fin 399) \<and> (\<not> ok \<longrightarrow> s' = s1))"
    using corrective_write [OF h, of Fin allow True] w(2,3,4,5)
    unfolding w(1) by blast
  from guarded asked
  have c1: "setFrom_js Fin (keep_distance 2) example3 (Fin 450) True
      = Some (OrderViolation, scheduleCallback (example3\<lparr>fromValue := Fin 300,
          fromThumb := (fromThumb example3)\<lparr>aria_valuenow := Some (Fin 300)\<rparr>\<rparr>))"
    by blast
  from free allowed obtain s' where
    c2: "setFrom_js Fin allow example3 (Fin 450) True = Some (OrderViolation, s')"
      "fromValue s' = Fin 399"
    by blast
  have h0: "js_le (minValue (example3\<lparr>step := Fin 0\<rparr>)) (Fin 450)"
    "js_le (Fin 450) (maxValue (example3\<lparr>step := Fin 0\<rparr>))"
    using h by simp_all
  have w0: "js_sub Fin (toValue (example3\<lparr>step := Fin 0\<rparr>)) (step (example3\<lparr>step := Fin 0\<rparr>))
      = Fin 400"
    "js_ge (Fin 450) (toValue (example3\<lparr>step := Fin 0\<rparr>))"
    "\<not> js_lt (Fin 400) (minValue (example3\<lparr>step := Fin 0\<rparr>))"
    "\<not> js_gt (Fin 400) (maxValue (example3\<lparr>step := Fin 0\<rparr>))"
    "js_ge (Fin 400) (toValue (example3\<lparr>step := Fin 0\<rparr>))"
    by (simp_all add: example3_def as_js_def widget_def js_sub_def)
  have c3: "setFrom_js Fin allow (example3\<lparr>step := Fin 0\<rparr>) (Fin 450) True = None"
    using corrective_write [OF h0, of Fin allow True] w0(2,3,4,5)
    unfolding w0(1) by blast
  show ?thesis
    using h w(1,2) asked c1 c2 c3 by simp
qed

text \<open>
  C3. The claim is that binding a second widget to a host element that already has one
  raises an error. The constructor does not: a call that has bound a widget can be
  repeated on the same host element and binds a second one. The test for a bound widget
  looks the host element up in the registry, while the registry holds the
  \<^verbatim>\<open>.double-range\<close> element found below the host, which is another element. The
  second call returns an instance again and replaces the registry entry.
\<close>

theorem double_binding_accepted:
  assumes "constructor doc reg this o' = (Inr s, reg')"
    and "getElement doc (selector o') = Inr host"
    and "q_div (below doc host) \<noteq> Some host"
  shows "\<exists>dr. q_div (below doc host) = Some dr \<and> reg' = reg(dr \<mapsto> this) \<and>
           constructor doc reg' this' o' = (Inr s, reg'(dr \<mapsto> this'))"
proof -
  from assms(1,2) obtain dr where dr: "q_div (below doc host) = Some dr"
    by (auto simp: constructor_def Let_def split: if_splits option.splits)
  from assms(1,2) dr have free: "reg host = None" and reg': "reg' = reg(dr \<mapsto> this)"
    by (auto simp: constructor_def Let_def split: if_splits option.splits)
  from assms(3) dr have "dr \<noteq> host" by auto
  with free reg' have free': "reg' host = None" by simp
  have "constructor doc reg' this' o' = (Inr s, reg'(dr \<mapsto> this'))"
    using assms(1,2) dr free free'
    by (auto simp: constructor_def Let_def split: if_splits option.splits)
  with dr reg' show ?thesis by blast
qed

theorem double_binding_accepted_witness:
  "constructor (page (served (cfg 0 100 5 20 80))) Map.empty 7 (cfg 0 100 5 20 80)
     = (Inr (widget 0 100 5 20 80), [1 \<mapsto> 7]) \<and>
   getElement (page (served (cfg 0 100 5 20 80))) (selector (cfg 0 100 5 20 80)) = Inr 0 \<and>
   q_div (below (page (served (cfg 0 100 5 20 80))) 0) = Some 1 \<and>
   constructor (page (served (cfg 0 100 5 20 80))) [1 \<mapsto> 7] 8 (cfg 0 100 5 20 80)
     = (Inr (widget 0 100 5 20 80), [1 \<mapsto> 8])"
proof -
  have first: "constructor (page (served (cfg 0 100 5 20 80))) Map.empty 7 (cfg 0 100 5 20 80)
     = (Inr (widget 0 100 5 20 80), [1 \<mapsto> 7])"
    by (simp add: constructor_def page_def served_def generated_def cfg_def
        getElement_def attr_or_def or_else_def widget_def)
  have host: "getElement (page (served (cfg 0 100 5 20 80))) (selector (cfg 0 100 5 20 80)) = Inr 0"
    by (simp add: page_def cfg_def getElement_def)
  have below: "q_div (below (page (served (cfg 0 100 5 20 80))) 0) \<noteq> Some 0"
    by (simp add: page_def served_def generated_def)
  show ?thesis
    using first host double_binding_accepted [OF first host below, of 8]
    by (auto simp: page_def served_def generated_def)
qed

text \<open>
  C4. The claim is that \<open>update\<close> raises an error and changes nothing whenever the merged
  values violate an ordering constraint. For numbers other than \<^verbatim>\<open>NaN\<close> it does
  (\<open>update_js_rejects\<close>). But every comparison with \<^verbatim>\<open>NaN\<close> is false, and the four
  tests of \<open>update\<close> raise when a comparison is true: in any state that satisfies the
  ordering invariant, \<^verbatim>\<open>update({from: NaN})\<close> returns normally and \<open>from\<close> is
  \<^verbatim>\<open>NaN\<close> afterwards, although the merged values do not satisfy \<open>from < to\<close>. The
  documentation of \<open>update\<close> announces \<open>TypeError\<close> if any value is not a number and
  \<open>RangeError\<close> if the values violate a constraint.
\<close>

theorem update_accepts_nan:
  assumes "ordered_js s"
  shows "\<not> next_ordered_js
             (merged s \<lparr>opt_min = None, opt_max = None, opt_from = Some NaN, opt_to = None\<rparr>) \<and>
         fst (update_js s
               \<lparr>opt_min = None, opt_max = None, opt_from = Some NaN, opt_to = None\<rparr> fc) = Inr () \<and>
         fromValue (snd (update_js s
               \<lparr>opt_min = None, opt_max = None, opt_from = Some NaN, opt_to = None\<rparr> fc)) = NaN"
proof -
  have ord: "js_lt (minValue s) (maxValue s)" "js_le (minValue s) (fromValue s)"
    "js_lt (fromValue s) (toValue s)" "js_le (toValue s) (maxValue s)"
    using assms by (simp_all add: ordered_js_def)
  have "js_lt (minValue s) (toValue s)" using ord(2,3) js_le_lt_trans by blast
  then have to_low: "\<not> js_lt (toValue s) (minValue s)" using js_lt_irrefl by blast
  have to_high: "\<not> js_gt (toValue s) (maxValue s)" using ord(4) js_le_not by blast
  have bounds: "\<not> js_ge (minValue s) (maxValue s)"
    using ord(1) js_le_not by (auto simp: js_ge_def)
  show ?thesis
    using to_low to_high bounds
    by (simp add: update_js_def merged_def next_ordered_js_def Let_def)
qed

theorem update_accepts_nan_witness:
  "ordered_js (as_js (widget 0 100 5 20 80)) \<and>
   fst (update_js (as_js (widget 0 100 5 20 80))
         \<lparr>opt_min = None, opt_max = None, opt_from = Some NaN, opt_to = None\<rparr> True) = Inr () \<and>
   fromValue (snd (update_js (as_js (widget 0 100 5 20 80))
         \<lparr>opt_min = None, opt_max = None, opt_from = Some NaN, opt_to = None\<rparr> True)) = NaN \<and>
   \<not> js_lt NaN (toValue (as_js (widget 0 100 5 20 80))) \<and>
   update_js (as_js (widget 0 100 5 5 60))
     \<lparr>opt_min = Some (Fin 10), opt_max = Some (Fin 90), opt_from = None, opt_to = None\<rparr> True
     = (Inl RangeError, as_js (widget 0 100 5 5 60))"
proof -
  have o: "ordered_js (as_js (widget 0 100 5 20 80))"
    by (simp add: ordered_js_def as_js_def widget_def)
  have "update_js (as_js (widget 0 100 5 5 60))
     \<lparr>opt_min = Some (Fin 10), opt_max = Some (Fin 90), opt_from = None, opt_to = None\<rparr> True
     = (Inl RangeError, as_js (widget 0 100 5 5 60))"
    by (simp add: update_js_def merged_def as_js_def widget_def)
  then show ?thesis
    using o update_accepts_nan [OF o, of True] by simp
qed

text \<open>
  C5, as stated: on an exact tie the \<open>from\<close> handle moves. The source compares with a
  strict \<open><\<close> and moves \<open>to\<close> otherwise: with \<open>from\<close> 20 and \<open>to\<close> 80, a click that
  snaps to 50 is 30 away from both, and \<open>to\<close> becomes 50 while \<open>from\<close> stays 20.
\<close>

theorem track_click_tie_counterexample:
  "snapValue (widget 0 100 5 20 80) (50 / 100) = Some 50 \<and>
   \<bar>50 - fromValue (widget 0 100 5 20 80)\<bar> = \<bar>50 - toValue (widget 0 100 5 20 80)\<bar> \<and>
   map_option fromValue (trackClicked (widget 0 100 5 20 80) 50) = Some 20 \<and>
   map_option toValue (trackClicked (widget 0 100 5 20 80) 50) = Some 50"
  by (simp add: trackClicked_def snapValue_def js_div_def widget_def setTo.simps vetoes_def)

text \<open>
  C5, amended. The candidate \<open>c\<close> is snapped from the unclamped position of the
  click. In a state that satisfies the ordering invariant: if \<open>c\<close> is strictly nearer
  to \<open>from\<close> than to \<open>to\<close>, the click is \<open>setFrom(c)\<close>, \<open>to\<close> stays, and \<open>from\<close>
  becomes \<open>c\<close> unless \<open>c\<close> is below the minimum or the guard vetoes; otherwise, and
  so on an exact tie, the click is \<open>setTo(c)\<close>, \<open>from\<close> stays, and \<open>to\<close> becomes
  \<open>c\<close> unless \<open>c\<close> is above the maximum or the guard vetoes.
\<close>

theorem track_click_nearest:
  assumes "trackRect s = Some r" and "rect_width r \<noteq> 0" and "ordered s"
    and "snapValue s ((x - rect_left r) / rect_width r) = Some c"
  shows "\<exists>s'. trackClicked s x = Some s' \<and>
           (if \<bar>c - fromValue s\<bar> < \<bar>c - toValue s\<bar>
            then trackClicked s x = map_option snd (setFrom s c True) \<and>
                 toValue s' = toValue s \<and>
                 (minValue s \<le> c \<and> \<not> vetoes (beforeFromChange s) c (toValue s)
                    \<longrightarrow> fromValue s' = c)
            else trackClicked s x = map_option snd (setTo s c True) \<and>
                 fromValue s' = fromValue s \<and>
                 (c \<le> maxValue s \<and> \<not> vetoes (beforeToChange s) (fromValue s) c
                    \<longrightarrow> toValue s' = c))"
proof (cases "\<bar>c - fromValue s\<bar> < \<bar>c - toValue s\<bar>")
  case True
  have click: "trackClicked s x = map_option snd (setFrom s c True)"
    using assms(1,2,4) True by (simp add: trackClicked_def js_div_def)
  have below: "c < toValue s" "c \<le> maxValue s"
    using True assms(3) by (auto simp: ordered_def abs_if split: if_splits)
  have "setFrom s c True =
     (if c < minValue s then Some (OutOfRange, s)
      else if vetoes (beforeFromChange s) c (toValue s) then Some (Vetoed, s)
      else Some (Accepted, scheduleCallback
          (s\<lparr>fromValue := c, fromThumb := (fromThumb s)\<lparr>aria_valuenow := Some c\<rparr>\<rparr>)))"
    using below by (subst setFrom.simps) (simp add: Let_def)
  with click True show ?thesis by auto
next
  case False
  have click: "trackClicked s x = map_option snd (setTo s c True)"
    using assms(1,2,4) False by (simp add: trackClicked_def js_div_def)
  have above: "fromValue s < c" "minValue s \<le> c"
    using False assms(3) by (auto simp: ordered_def abs_if split: if_splits)
  have "setTo s c True =
     (if c > maxValue s then Some (OutOfRange, s)
      else if c = toValue s then Some (NoChange, s)
      else if vetoes (beforeToChange s) (fromValue s) c then Some (Vetoed, s)
      else Some (Accepted, scheduleCallback
          (s\<lparr>toValue := c, toThumb := (toThumb s)\<lparr>aria_valuenow := Some c\<rparr>\<rparr>)))"
    using above by (subst setTo.simps) (simp add: Let_def)
  with click False show ?thesis by auto
qed

theorem track_click_nearest_witness:
  "trackRect (widget 0 100 1 20 80) = Some \<lparr>rect_left = 0, rect_width = 100\<rparr> \<and>
   ordered (widget 0 100 1 20 80) \<and>
   snapValue (widget 0 100 1 20 80) ((53 - 0) / 100) = Some 53 \<and>
   map_option fromValue (trackClicked (widget 0 100 1 20 80) 53) = Some 20 \<and>
   map_option toValue (trackClicked (widget 0 100 1 20 80) 53) = Some 53"
proof -
  have h: "trackRect (widget 0 100 1 20 80) = Some \<lparr>rect_left = 0, rect_width = 100\<rparr>"
    "rect_width \<lparr>rect_left = 0, rect_width = 100\<rparr> \<noteq> 0"
    "ordered (widget 0 100 1 20 80)"
    "snapValue (widget 0 100 1 20 80)
       ((53 - rect_left \<lparr>rect_left = 0, rect_width = 100\<rparr>)
          / rect_width \<lparr>rect_left = 0, rect_width = 100\<rparr>) = Some 53"
    by (simp_all add: widget_def ordered_def snapValue_def js_div_def)
  show ?thesis
    using h(1,3,4) track_click_nearest [OF h]
    by (auto simp: widget_def vetoes_def)
qed

text \<open>
  C6, as stated: \<open>getFrom()\<close> after \<open>setFrom(v)\<close> is \<open>v\<close> only if \<open>v\<close> was within
  \<open>[min, to)\<close> and not vetoed. It is also \<open>v\<close> when \<open>v\<close> is the value \<open>from\<close>
  already has and the guard vetoes the call.
\<close>

theorem setFrom_roundtrip_counterexample:
  "setFrom ((widget 0 100 5 20 80)\<lparr>beforeFromChange := Some never\<rparr>) 20 True
     = Some (Vetoed, (widget 0 100 5 20 80)\<lparr>beforeFromChange := Some never\<rparr>) \<and>
   getFrom ((widget 0 100 5 20 80)\<lparr>beforeFromChange := Some never\<rparr>) = 20 \<and>
   vetoes (beforeFromChange ((widget 0 100 5 20 80)\<lparr>beforeFromChange := Some never\<rparr>)) 20
     (toValue ((widget 0 100 5 20 80)\<lparr>beforeFromChange := Some never\<rparr>))"
  by (simp add: setFrom.simps widget_def vetoes_def never_def getFrom_def)

text \<open>
  C6, amended. Over the numbers of JavaScript, in a state that satisfies the ordering
  invariant, for \<open>v\<close> other than \<^verbatim>\<open>NaN\<close> and a guard that, whenever it returns false,
  leaves \<open>from\<close> as it found it: \<open>setFrom(v)\<close> returns if the computed \<open>to - step\<close> is
  below \<open>to\<close> and the guard returns; and whenever \<open>setFrom(v)\<close> returns, \<open>getFrom()\<close>
  is then \<open>v\<close> exactly when \<open>v\<close> was within \<open>[min, to)\<close> and not vetoed, or \<open>v\<close> was
  the value of \<open>from\<close> before the call.
\<close>

theorem setFrom_roundtrip:
  assumes "ordered_js s" and "v \<noteq> NaN"
    and "\<forall>a ok s1. before a (toValue s) s = Some (ok, s1) \<and> \<not> ok \<longrightarrow> fromValue s1 = fromValue s"
  shows
    "(js_lt (js_sub rnd (toValue s) (step s)) (toValue s) \<and>
      (\<forall>a. before a (toValue s) s \<noteq> None) \<longrightarrow>
        (\<exists>e s'. setFrom_js rnd before s v fc = Some (e, s'))) \<and>
     (\<forall>e s'. setFrom_js rnd before s v fc = Some (e, s') \<longrightarrow>
        (getFrom s' = v \<longleftrightarrow>
           (js_le (minValue s) v \<and> js_lt v (toValue s) \<and>
            map_option fst (ask (beforeFromChange s) before v (toValue s) s) = Some True)
           \<or> v = fromValue s))"
proof -
  let ?w = "js_sub rnd (toValue s) (step s)"
  note nums = ordered_js_numbers [OF assms(1)]
  have ord: "js_lt (minValue s) (maxValue s)" "js_le (minValue s) (fromValue s)"
    "js_lt (fromValue s) (toValue s)" "js_le (toValue s) (maxValue s)"
    using assms(1) by (simp_all add: ordered_js_def)
  have quiet: "fromValue s1 = fromValue s"
    if "ask (beforeFromChange s) before a (toValue s) s = Some (False, s1)" for a s1
    using that assms(3) by (auto simp: ask_def split: option.splits)
  have asked: "\<exists>r. ask (beforeFromChange s) before a (toValue s) s = Some r"
    if "\<forall>a. before a (toValue s) s \<noteq> None" for a
    using that by (auto simp: ask_def split: option.splits)
  consider (out) "js_lt v (minValue s) \<or> js_gt v (maxValue s)"
    | (high) "\<not> js_lt v (minValue s)" "\<not> js_gt v (maxValue s)" "js_ge v (toValue s)"
    | (low) "\<not> js_lt v (minValue s)" "\<not> js_gt v (maxValue s)" "\<not> js_ge v (toValue s)"
    by blast
  then show ?thesis
  proof cases
    case out
    then have call: "setFrom_js rnd before s v fc = Some (OutOfRange, s)"
      by (subst setFrom_js.simps) simp
    have "\<not> (js_le (minValue s) v \<and> js_lt v (toValue s))"
    proof
      assume in_range: "js_le (minValue s) v \<and> js_lt v (toValue s)"
      then have "js_lt v (maxValue s)" using ord(4) js_lt_le_trans by blast
      then have "\<not> js_gt v (maxValue s)" using js_lt_irrefl by (auto simp: js_gt_def)
      moreover have "\<not> js_lt v (minValue s)" using in_range js_le_not by blast
      ultimately show False using out by blast
    qed
    then show ?thesis using call by (auto simp: getFrom_def)
  next
    case high
    note outer = setFrom_js_corrects [OF high, of rnd before fc]
    have above: "js_lt (fromValue s) v"
      using ord(3) high(3) js_lt_le_trans by (auto simp: js_ge_def)
    then have differs: "fromValue s \<noteq> v" using js_lt_irrefl by blast
    have not_below: "\<not> js_lt v (toValue s)"
      using high(3) js_le_not by (auto simp: js_ge_def)
    have inner: "fromValue s' \<noteq> v" if "setFrom_js rnd before s ?w True = Some (e, s')" for e s'
    proof (cases "js_lt ?w (minValue s) \<or> js_gt ?w (maxValue s)")
      case True
      then have "setFrom_js rnd before s ?w True = Some (OutOfRange, s)"
        by (subst setFrom_js.simps) simp
      with that differs show ?thesis by simp
    next
      case range: False
      show ?thesis
      proof (cases "js_ge ?w (toValue s)")
        case True
        then have "setFrom_js rnd before s ?w True = None"
          using range by (intro setFrom_js_repeats) simp_all
        with that show ?thesis by simp
      next
        case False
        then have "?w \<noteq> v" using high(3) by auto
        moreover from that range False obtain ok s1 where
          a: "ask (beforeFromChange s) before ?w (toValue s) s = Some (ok, s1)"
          and s': "if ok then fromValue s' = ?w else s' = s1"
          by (auto simp: setFrom_js_asks split: bind_splits if_splits)
        ultimately show ?thesis using quiet [of ?w s1] differs by (cases ok) auto
      qed
    qed
    have returns: "\<exists>e s'. setFrom_js rnd before s ?w True = Some (e, s')"
      if "js_lt ?w (toValue s)" "\<forall>a. before a (toValue s) s \<noteq> None"
    proof (cases "js_lt ?w (minValue s) \<or> js_gt ?w (maxValue s)")
      case True
      then show ?thesis by (subst setFrom_js.simps) simp
    next
      case False
      moreover have "\<not> js_ge ?w (toValue s)"
        using that(1) js_le_not by (auto simp: js_ge_def)
      ultimately show ?thesis
        using asked [OF that(2), of ?w] by (auto simp: setFrom_js_asks)
    qed
    have "\<exists>e s'. setFrom_js rnd before s v fc = Some (e, s')"
      if "js_lt ?w (toValue s)" "\<forall>a. before a (toValue s) s \<noteq> None"
      using returns [OF that] by (auto simp: outer)
    moreover have "getFrom s' \<noteq> v" if "setFrom_js rnd before s v fc = Some (e, s')" for e s'
      using that inner by (auto simp: outer getFrom_def split: bind_splits)
    ultimately show ?thesis
      using differs not_below by auto
  next
    case low
    have in_range: "js_le (minValue s) v" "js_lt v (toValue s)"
      using low assms(2) nums js_not_lt [of v "minValue s"] js_not_le [of "toValue s" v]
      by (auto simp: js_ge_def)
    have "getFrom s' = v \<longleftrightarrow>
        map_option fst (ask (beforeFromChange s) before v (toValue s) s) = Some True
        \<or> v = fromValue s"
      if "setFrom_js rnd before s v fc = Some (e, s')" for e s'
    proof -
      from that obtain ok s1 where
        a: "ask (beforeFromChange s) before v (toValue s) s = Some (ok, s1)"
        and s': "if ok then fromValue s' = v else s' = s1"
        by (auto simp: setFrom_js_asks [OF low] split: bind_splits if_splits)
      show ?thesis using a s' quiet [of v s1] by (cases ok) (auto simp: getFrom_def)
    qed
    moreover have "\<exists>e s'. setFrom_js rnd before s v fc = Some (e, s')"
      if "\<forall>a. before a (toValue s) s \<noteq> None"
      using asked [OF that, of v] by (auto simp: setFrom_js_asks [OF low])
    ultimately show ?thesis using in_range by auto
  qed
qed

theorem setFrom_roundtrip_witness:
  "ordered_js example3 \<and> Fin 100 \<noteq> NaN \<and>
   js_lt (js_sub Fin (toValue example3) (step example3)) (toValue example3) \<and>
   setFrom_js Fin refuse example3 (Fin 100) True = Some (Vetoed, example3) \<and>
   getFrom example3 = Fin 100 \<and>
   map_option (getFrom \<circ> snd) (setFrom_js Fin allow example3 (Fin 200) True) = Some (Fin 200) \<and>
   map_option (getFrom \<circ> snd) (setFrom_js Fin refuse example3 (Fin 200) True) = Some (Fin 100)"
proof -
  have o: "ordered_js example3"
    by (simp add: ordered_js_def example3_def as_js_def widget_def)
  have q: "\<forall>a ok s1. refuse a (toValue example3) example3 = Some (ok, s1) \<and> \<not> ok
      \<longrightarrow> fromValue s1 = fromValue example3"
    "\<forall>a ok s1. allow a (toValue example3) example3 = Some (ok, s1) \<and> \<not> ok
      \<longrightarrow> fromValue s1 = fromValue example3"
    by (simp_all add: refuse_def allow_def)
  have r: "\<forall>a. refuse a (toValue example3) example3 \<noteq> None"
    "\<forall>a. allow a (toValue example3) example3 \<noteq> None"
    by (simp_all add: refuse_def allow_def)
  have w: "js_lt (js_sub Fin (toValue example3) (step example3)) (toValue example3)"
    by (simp add: example3_def as_js_def widget_def js_sub_def)
  have vals: "getFrom example3 = Fin 100" "fromValue example3 = Fin 100"
    "js_le (minValue example3) (Fin 200)" "js_lt (Fin 200) (toValue example3)"
    "js_le (minValue example3) (Fin 100)" "js_lt (Fin 100) (toValue example3)"
    by (simp_all add: getFrom_def example3_def as_js_def widget_def)
  have asks: "ask (beforeFromChange example3) refuse (Fin 100) (toValue example3) example3
      = Some (False, example3)"
    "ask (beforeFromChange example3) refuse (Fin 200) (toValue example3) example3
      = Some (False, example3)"
    "ask (beforeFromChange example3) allow (Fin 200) (toValue example3) example3
      = Some (True, example3)"
    by (simp_all add: ask_def refuse_def allow_def example3_def)
  have veto: "setFrom_js Fin refuse example3 (Fin 100) True = Some (Vetoed, example3)"
    using asks(1)
    by (subst setFrom_js.simps) (simp add: example3_def as_js_def widget_def)
  have n: "Fin 100 \<noteq> NaN" "Fin 200 \<noteq> NaN" by simp_all
  note t1 = setFrom_roundtrip [where s = example3 and before = refuse and v = "Fin 100"
      and rnd = Fin and fc = True, OF o n(1) q(1)]
  note t2 = setFrom_roundtrip [where s = example3 and before = refuse and v = "Fin 200"
      and rnd = Fin and fc = True, OF o n(2) q(1)]
  note t3 = setFrom_roundtrip [where s = example3 and before = allow and v = "Fin 200"
      and rnd = Fin and fc = True, OF o n(2) q(2)]
  from t2 w r(1) obtain e2 s2 where
    c2: "setFrom_js Fin refuse example3 (Fin 200) True = Some (e2, s2)" by blast
  from t3 w r(2) obtain e3 s3 where
    c3: "setFrom_js Fin allow example3 (Fin 200) True = Some (e3, s3)" by blast
  have "getFrom s3 = Fin 200"
    using t3 c3 vals(3,4) asks(3) by auto
  moreover have "getFrom s2 = Fin 100"
  proof -
    have "setFrom_js Fin refuse example3 (Fin 200) True = Some (Vetoed, example3)"
      using asks(2)
      by (subst setFrom_js.simps) (simp add: example3_def as_js_def widget_def)
    with c2 vals(1) show ?thesis by simp
  qed
  ultimately show ?thesis
    using o w veto vals(1) c2 c3 by simp
qed

text \<open>
  C7. The claim is that \<open>setMin(v)\<close> and \<open>setMax(v)\<close> raise an error and change nothing
  whenever the new bound would violate \<open>min < max\<close>, \<open>min \<le> from\<close> or \<open>to \<le> max\<close>.
  For numbers other than \<^verbatim>\<open>NaN\<close> they do (\<open>setMin_js_rejects\<close>,
  \<open>setMax_js_rejects\<close>). But the two tests of each setter raise when a comparison is
  true, and every comparison with \<^verbatim>\<open>NaN\<close> is false: in every state
  \<^verbatim>\<open>setMin(NaN)\<close> returns normally and the minimum is \<^verbatim>\<open>NaN\<close> afterwards, which is
  not below the maximum, and likewise \<^verbatim>\<open>setMax(NaN)\<close>. The documentation of both
  announces \<open>RangeError\<close> if the constraints are violated, and the demonstration page
  passes them \<^verbatim>\<open>parseInt\<close> of a text field, which is \<^verbatim>\<open>NaN\<close> for an empty field.
\<close>

theorem setMin_setMax_accept_nan:
  "\<not> js_lt NaN (maxValue s) \<and>
   fst (setMin_js s NaN fc) = Inr () \<and> minValue (snd (setMin_js s NaN fc)) = NaN \<and>
   \<not> js_lt (minValue s) NaN \<and>
   fst (setMax_js s NaN fc) = Inr () \<and> maxValue (snd (setMax_js s NaN fc)) = NaN"
  by (simp add: setMin_js_def setMax_js_def Let_def)

theorem setMin_setMax_accept_nan_witness:
  "fst (setMin_js (as_js (widget 0 100 5 20 60)) NaN True) = Inr () \<and>
   minValue (snd (setMin_js (as_js (widget 0 100 5 20 60)) NaN True)) = NaN \<and>
   fst (setMax_js (as_js (widget 0 100 5 20 60)) NaN True) = Inr () \<and>
   maxValue (snd (setMax_js (as_js (widget 0 100 5 20 60)) NaN True)) = NaN \<and>
   setMax_js (as_js (widget 0 100 5 20 60)) (Fin 50) True
     = (Inl RangeError, as_js (widget 0 100 5 20 60))"
proof -
  have "setMax_js (as_js (widget 0 100 5 20 60)) (Fin 50) True
     = (Inl RangeError, as_js (widget 0 100 5 20 60))"
    by (simp add: setMax_js_def as_js_def widget_def)
  then show ?thesis
    using setMin_setMax_accept_nan [of "as_js (widget 0 100 5 20 60)" True] by simp
qed

text \<open>
  C8. Take a widget with a positive step whose armed timeouts are at most the one it
  holds, a drag start on either handle, and then any sequence of operations that does
  not end the drag: move events, elapsing timers, and also setter calls, keys and clicks.
  After that sequence no timeout is armed and no callback has been delivered. After the
  drag end exactly one timeout is armed and still nothing has been delivered; when it
  runs, the callback is delivered once, with the values the drag ended on.
\<close>

theorem drag_suppression:
  assumes "0 < step s" and "measurable s" and "timers_held s"
    and "list_all keeps_dragging cs"
  shows "\<exists>s1 s2 s3.
           performs (Gesture (DragStart type) # cs) s = Some s1 \<and>
           timers s1 = [] \<and> delivered s1 = delivered s \<and>
           performs (Gesture (DragStart type) # cs @ [Gesture DragEnd]) s = Some s2 \<and>
           length (timers s2) = 1 \<and> delivered s2 = delivered s \<and>
           performs (Gesture (DragStart type) # cs @ [Gesture DragEnd, Gesture TimersElapse]) s
             = Some s3 \<and>
           timers s3 = [] \<and>
           delivered s3 = delivered s @ [(fromValue s1, toValue s1)]"
proof -
  let ?s0 = "onDragStart s type"
  have "timers_held (s\<lparr>isDragging := Some type, duringDrag := True\<rparr>)"
    using assms(3) by (simp add: timers_held_def split: list.splits)
  then have cleared: "timers ?s0 = []"
    by (simp add: onDragStart_def clearCallbackTimer_held)
  have s0: "0 < step ?s0" "measurable ?s0" "duringDrag ?s0" "isDragging ?s0 \<noteq> None"
    "timers ?s0 = []" "delivered ?s0 = delivered s"
    using assms(1,2) cleared
    by (simp_all add: onDragStart_def measurable_def)
  from performs_dragging [OF assms(4) s0(1-5)]
  obtain s1 where s1: "performs cs ?s0 = Some s1" "duringDrag s1" "isDragging s1 \<noteq> None"
    "timers s1 = []" "delivered s1 = delivered s"
    using s0(6) by auto
  let ?s2 = "onDragEnd s1"
  let ?idle = "s1\<lparr>isDragging := None, duringDrag := False\<rparr>"
  have end_eq: "?s2 = scheduleCallback ?idle"
    using s1(3) by (auto simp: onDragEnd_def)
  have idle: "\<not> duringDrag ?idle" "timers_held ?idle"
    using s1(4) by (simp_all add: timers_held_def)
  have s2: "timers ?s2 = [Suc (timerCount s1)]" "delivered ?s2 = delivered s"
    "fromValue ?s2 = fromValue s1" "toValue ?s2 = toValue s1"
    using scheduleCallback_arms [OF idle] s1(5) by (simp_all add: end_eq)
  let ?s3 = "timersElapse ?s2"
  have s3: "timers ?s3 = []" "delivered ?s3 = delivered s @ [(fromValue s1, toValue s1)]"
    using s2 by (simp_all add: timersElapse_def timerFired_def)
  have r1: "performs (Gesture (DragStart type) # cs) s = Some s1"
    using s1(1) by simp
  have r2: "performs (Gesture (DragStart type) # cs @ [Gesture DragEnd]) s = Some ?s2"
    using s1(1) by (simp add: performs_append)
  have r3: "performs (Gesture (DragStart type) # cs @ [Gesture DragEnd, Gesture TimersElapse]) s
    = Some ?s3"
    using s1(1) by (simp add: performs_append)
  show ?thesis
    using r1 r2 r3 s1(4,5) s2 s3 by simp
qed

theorem drag_suppression_witness:
  "0 < step (scheduleCallback (widget 0 100 5 20 80)) \<and>
   measurable (scheduleCallback (widget 0 100 5 20 80)) \<and>
   timers_held (scheduleCallback (widget 0 100 5 20 80)) \<and>
   timers (scheduleCallback (widget 0 100 5 20 80)) = [1] \<and>
   list_all keeps_dragging
     [Gesture (DragMove 50), Gesture TimersElapse, Gesture (DragMove 60)] \<and>
   map_option delivered
     (performs (Gesture (DragStart To) #
                [Gesture (DragMove 50), Gesture TimersElapse, Gesture (DragMove 60)])
        (scheduleCallback (widget 0 100 5 20 80))) = Some [] \<and>
   map_option delivered
     (performs (Gesture (DragStart To) #
                [Gesture (DragMove 50), Gesture TimersElapse, Gesture (DragMove 60)]
                @ [Gesture DragEnd, Gesture TimersElapse])
        (scheduleCallback (widget 0 100 5 20 80))) = Some [(20, 60)]"
proof -
  let ?w = "scheduleCallback (widget 0 100 5 20 80)"
  have w: "?w = (widget 0 100 5 20 80)\<lparr>timers := [1], timerCount := 1, callbackTimer := Some 1\<rparr>"
    by (simp add: scheduleCallback_def clearCallbackTimer_def setTimeout_def widget_def)
  have h: "0 < step ?w" "measurable ?w" "timers_held ?w"
    "list_all keeps_dragging
       [Gesture (DragMove 50), Gesture TimersElapse, Gesture (DragMove 60)]"
    unfolding w by (simp_all add: widget_def measurable_def timers_held_def)
  have t: "timers ?w = [1]" "delivered ?w = []" unfolding w by (simp_all add: widget_def)
  show ?thesis
    using h t drag_suppression [OF h, of To]
    unfolding w
    by (simp add: widget_def onDragStart_def onDragMove_def onDragEnd_def timersElapse_def
        timerFired_def clearCallbackTimer_def clearTimeout_def js_div_def snapValue_def
        setValue_def setTo.simps vetoes_def scheduleCallback_def setTimeout_def)
qed




text \<open>
  C10. \<open>setTo\<close> called with the current \<open>to\<close>, which lies within the bounds and
  above \<open>from\<close>, leaves by the no-change return: it returns \<open>false\<close> and the state,
  with its timers, is the one before the call. No call of \<open>setFrom\<close> leaves by its
  no-change return.
\<close>

theorem setTo_no_change:
  "(minValue s \<le> toValue s \<and> toValue s \<le> maxValue s \<and> fromValue s < toValue s \<longrightarrow>
      setTo s (toValue s) fc = Some (NoChange, s) \<and> \<not> returns_this NoChange) \<and>
   (\<forall>e s'. setFrom s v fc' = Some (e, s') \<longrightarrow> e \<noteq> NoChange)"
proof -
  have "setTo s (toValue s) fc = Some (NoChange, s)"
    if "minValue s \<le> toValue s" "toValue s \<le> maxValue s" "fromValue s < toValue s"
    using that by (subst setTo.simps) simp
  moreover have "e \<noteq> NoChange" if "setFrom s v fc' = Some (e, s')" for e s'
    using that by (subst (asm) setFrom.simps) (auto split: if_splits bind_splits simp: Let_def)
  ultimately show ?thesis by (auto simp: returns_this_def)
qed

theorem setTo_no_change_witness:
  "setTo (widget 0 100 5 20 80) 80 True = Some (NoChange, widget 0 100 5 20 80) \<and>
   map_option fst (setFrom (widget 0 100 5 20 80) 80 True) = Some OrderViolation"
proof -
  have "map_option fst (setFrom (widget 0 100 5 20 80) 80 True) = Some OrderViolation"
    by (simp add: setFrom.simps widget_def vetoes_def)
  then show ?thesis
    using setTo_no_change [of "widget 0 100 5 20 80" True 80 True]
    by (simp add: widget_def)
qed

end
